theory Spec2Isabelle
  imports Complex_Main "HOL-Library.AList"
begin

section \<open>Python values used by pentomino.py\<close>

text \<open>
  Exceptions of the Python program are values: every function that can raise returns
  \<open>error + 'a\<close>, with \<open>Inl\<close> for the exception. \<open>DanglingRef\<close> has no Python
  counterpart: a reference to a \<open>Node\<close> object is modelled by the position of the
  object in its grid, and following a position outside the grid is reported by this value
  (a Python reference always points to an object).
\<close>

datatype error = IndexError | ValueError | ZeroDivisionError | AttributeError | DanglingRef

definition bind :: "error + 'a \<Rightarrow> ('a \<Rightarrow> error + 'b) \<Rightarrow> error + 'b" where
  "bind x f = (case x of Inl e \<Rightarrow> Inl e | Inr v \<Rightarrow> f v)"

text \<open>\<open>xs[i]\<close>: a negative index counts from the end, an index out of range raises.\<close>

definition py_index :: "'a list \<Rightarrow> int \<Rightarrow> error + 'a" where
  "py_index xs i =
     (let k = int (length xs); j = (if i < 0 then k + i else i)
      in if 0 \<le> j \<and> j < k then Inr (xs ! nat j) else Inl IndexError)"

text \<open>
  \<open>xs[lo:hi]\<close>: a negative bound counts from the end, then both bounds are clamped to
  \<open>0 .. len(xs)\<close>; the slice is empty when the bounds cross. Slicing never raises.
\<close>

definition py_bound :: "nat \<Rightarrow> int \<Rightarrow> nat" where
  "py_bound k i = (if i < 0 then nat (max 0 (int k + i)) else min (nat i) k)"

definition py_slice :: "'a list \<Rightarrow> int \<Rightarrow> int \<Rightarrow> 'a list" where
  "py_slice xs lo hi =
     (let a = py_bound (length xs) lo; b = py_bound (length xs) hi
      in take (b - a) (drop a xs))"

section \<open>The data model\<close>

text \<open>
  A \<open>Node\<close> object has the slots \<open>r\<close>, \<open>c\<close>, \<open>value\<close> and \<open>neighbors\<close>. The
  neighbor list holds references to other \<open>Node\<close> objects of the same grid; a reference
  is modelled by the position \<open>(row, column)\<close> of the object in the grid, and the grid
  is the store in which references are followed (\<open>deref\<close>).
\<close>

type_synonym ref = "nat \<times> nat"

record Node =
  node_r :: nat
  node_c :: nat
  node_value :: string
  node_neighbors :: "ref list"

type_synonym grid = "Node list list"

text \<open>\<open>Node.__init__(r, c, value)\<close>: the neighbor list starts empty.\<close>

definition new_Node :: "nat \<Rightarrow> nat \<Rightarrow> string \<Rightarrow> Node" where
  "new_Node r c v = \<lparr>node_r = r, node_c = c, node_value = v, node_neighbors = []\<rparr>"

text \<open>\<open>Node.__eq__\<close> compares \<open>r\<close>, \<open>c\<close> and \<open>value\<close>, not the neighbor lists.\<close>

definition node_eq :: "Node \<Rightarrow> Node \<Rightarrow> bool" where
  "node_eq a b = (node_r a = node_r b \<and> node_c a = node_c b \<and> node_value a = node_value b)"

definition deref :: "grid \<Rightarrow> ref \<Rightarrow> error + Node" where
  "deref g p =
     (case p of (r, c) \<Rightarrow>
        if r < length g \<and> c < length (g ! r) then Inr (g ! r ! c) else Inl DanglingRef)"

text \<open>
  The slots of a \<open>Pentomino\<close> object. \<open>reps\<close> is the same list in every object and is a
  constant here. The board has \<open>m\<close> columns and \<open>n\<close> rows; \<open>m\<close>, \<open>n\<close> and the
  population size \<open>k\<close> are natural numbers (\<open>range\<close> is empty for a negative bound).
  \<open>__init__\<close> runs the two loop nests of \<open>set_population\<close> on \<open>k\<close> random bitstrings.
\<close>

record Pentomino =
  pm :: nat
  pn :: nat
  pk :: nat
  population :: "grid list"
  bitstrings :: "string list"

definition reps :: "char list" where
  "reps = [CHR ''~'', CHR ''*'', CHR ''$'', CHR ''^'', CHR ''#'', CHR ''@'', CHR ''>'', CHR ''<'']"

text \<open>
  \<open>Pentomino.get_node(idx, row, col)\<close>. The three subscripts of
  \<open>self.population[idx][row][col]\<close> are Python subscripts, each of which can raise.
\<close>

definition get_node :: "Pentomino \<Rightarrow> int \<Rightarrow> int \<Rightarrow> int \<Rightarrow> error + Node option" where
  "get_node self idx row col =
     (if row \<ge> 0 \<and> col \<ge> 0 \<and> row < int (pn self) \<and> col < int (pm self)
      then bind (py_index (population self) idx) (\<lambda>g.
           bind (py_index g row) (\<lambda>lst.
           bind (py_index lst col) (\<lambda>node. Inr (Some node))))
      else Inr None)"

section \<open>Encoder: decoding bitstrings into grids\<close>

text \<open>
  \<open>Pentomino.bitsize()\<close> is \<open>ceil(log((self.m * self.n) / 5, 2))\<close>. \<open>math.log\<close>
  raises \<open>ValueError\<close> at \<open>0\<close>. The logarithm is the real one here; the program
  computes it in floating point.
\<close>

definition bitsize :: "Pentomino \<Rightarrow> error + int" where
  "bitsize self =
     (if pm self * pn self = 0 then Inl ValueError
      else Inr \<lceil>log 2 (real (pm self * pn self) / 5)\<rceil>)"

text \<open>
  A \<open>for\<close> loop over a list whose body updates a state and may raise: the first
  exception ends the loop.
\<close>

fun for_each :: "'a list \<Rightarrow> ('a \<Rightarrow> 's \<Rightarrow> error + 's) \<Rightarrow> 's \<Rightarrow> error + 's" where
  "for_each [] body s = Inr s"
| "for_each (x # xs) body s = bind (body x s) (for_each xs body)"

text \<open>
  The first loop nest of \<open>set_population\<close> (and of \<open>__init__\<close>): the inner loop over the
  columns \<open>c\<close> appends to \<open>lst\<close> and advances the pointer \<open>i\<close> into the bitstring, the
  loop over the rows \<open>r\<close> appends each \<open>lst\<close> to \<open>grid\<close>.
\<close>

fun populate_cols :: "string \<Rightarrow> int \<Rightarrow> nat \<Rightarrow> nat list \<Rightarrow> Node list \<times> int \<Rightarrow> Node list \<times> int" where
  "populate_cols bstring bsize r [] (lst, i) = (lst, i)"
| "populate_cols bstring bsize r (c # cs) (lst, i) =
     populate_cols bstring bsize r cs
       (lst @ [new_Node r c (py_slice bstring i (i + bsize))], i + bsize)"

fun populate_rows :: "string \<Rightarrow> int \<Rightarrow> nat \<Rightarrow> nat list \<Rightarrow> grid \<times> int \<Rightarrow> grid \<times> int" where
  "populate_rows bstring bsize m [] (grid, i) = (grid, i)"
| "populate_rows bstring bsize m (r # rs) (grid, i) =
     (case populate_cols bstring bsize r [0..<m] ([], i) of
        (lst, i') \<Rightarrow> populate_rows bstring bsize m rs (grid @ [lst], i'))"

definition populate :: "Pentomino \<Rightarrow> int \<Rightarrow> string \<Rightarrow> grid" where
  "populate self bsize bstring =
     fst (populate_rows bstring bsize (pm self) [0..<pn self] ([], 0))"

text \<open>
  \<open>self.population[i][r][c].neighbors.append(x)\<close>, where the appended reference \<open>x\<close>
  is the position of the node appended.
\<close>

definition append_neighbor :: "Pentomino \<Rightarrow> nat \<Rightarrow> nat \<Rightarrow> nat \<Rightarrow> ref \<Rightarrow> error + Pentomino" where
  "append_neighbor self i r c x =
     bind (py_index (population self) (int i)) (\<lambda>g.
     bind (py_index g (int r)) (\<lambda>lst.
     bind (py_index lst (int c)) (\<lambda>node.
       Inr (self\<lparr>population := (population self)
              [i := g[r := lst[c := node\<lparr>node_neighbors := node_neighbors node @ [x]\<rparr>]]]\<rparr>))))"

text \<open>
  One statement \<open>if not other == None and other.value == self.get_node(i, r, c).value:
  self.population[i][r][c].neighbors.append(other)\<close>. \<open>other\<close> is what \<open>get_node\<close> returned
  for the position \<open>x\<close>. The conjunction is evaluated from the left, so \<open>get_node(i, r, c)\<close>
  is not called when \<open>other\<close> is \<open>None\<close>; \<open>None.value\<close> raises \<open>AttributeError\<close>.
\<close>

definition link_to :: "Pentomino \<Rightarrow> nat \<Rightarrow> nat \<Rightarrow> nat \<Rightarrow> Node option \<Rightarrow> ref \<Rightarrow> error + Pentomino" where
  "link_to self i r c other x =
     (case other of
        None \<Rightarrow> Inr self
      | Some node \<Rightarrow>
          bind (get_node self (int i) (int r) (int c)) (\<lambda>here.
            case here of
              None \<Rightarrow> Inl AttributeError
            | Some this \<Rightarrow>
                if node_value node = node_value this then append_neighbor self i r c x
                else Inr self))"

text \<open>
  The body of the second loop nest for one cell: the four calls of \<open>get_node\<close>, then the
  four conditional appends, in the order above, below, left, right. Where \<open>get_node\<close>
  returns a node for \<open>(r - 1, c)\<close> or \<open>(r, c - 1)\<close>, the coordinate is not negative.
\<close>

definition link_cell :: "nat \<Rightarrow> nat \<Rightarrow> nat \<Rightarrow> Pentomino \<Rightarrow> error + Pentomino" where
  "link_cell i r c self =
     bind (get_node self (int i) (int r - 1) (int c)) (\<lambda>above.
     bind (get_node self (int i) (int r + 1) (int c)) (\<lambda>below.
     bind (get_node self (int i) (int r) (int c - 1)) (\<lambda>left.
     bind (get_node self (int i) (int r) (int c + 1)) (\<lambda>right.
     bind (link_to self i r c above (r - 1, c)) (\<lambda>self1.
     bind (link_to self1 i r c below (r + 1, c)) (\<lambda>self2.
     bind (link_to self2 i r c left (r, c - 1)) (\<lambda>self3.
     link_to self3 i r c right (r, c + 1))))))))"

definition set_up_neighbors :: "nat \<Rightarrow> Pentomino \<Rightarrow> error + Pentomino" where
  "set_up_neighbors count self =
     for_each [0..<count] (\<lambda>i self.
       for_each [0..<pn self] (\<lambda>r self.
         for_each [0..<pm self] (\<lambda>c self. link_cell i r c self) self) self) self"

text \<open>
  \<open>Pentomino.set_population(bitstrings)\<close>: the population is rebuilt from the bitstrings
  given, then the neighbor lists are filled. The slot \<open>bitstrings\<close> is not assigned.
\<close>

definition set_population :: "Pentomino \<Rightarrow> string list \<Rightarrow> error + Pentomino" where
  "set_population self bstrings =
     bind (bitsize self) (\<lambda>bsize.
       set_up_neighbors (length bstrings)
         (self\<lparr>population := map (populate self bsize) bstrings\<rparr>))"

section \<open>ConnectivityAnalyzer: breadth-first search\<close>

text \<open>
  \<open>x in xs\<close> for a list of nodes compares with \<open>Node.__eq__\<close>. Following every
  reference of a neighbor list gives the nodes that \<open>for n in neighbors\<close> iterates over.
  Nodes are not changed while \<open>bfs\<close> runs, so \<open>visited\<close> and the queue hold the nodes
  themselves. \<open>bfs_for\<close> is the loop \<open>for n in neighbors\<close>, \<open>bfs_while\<close> the loop
  \<open>while not q.empty()\<close>; it returns the final \<open>visited\<close> together with \<open>count\<close>, and
  \<open>bfs\<close> returns \<open>count\<close>.
\<close>

definition node_in :: "Node \<Rightarrow> Node list \<Rightarrow> bool" where
  "node_in x xs = list_ex (\<lambda>y. node_eq y x) xs"

fun deref_all :: "grid \<Rightarrow> ref list \<Rightarrow> error + Node list" where
  "deref_all g [] = Inr []"
| "deref_all g (p # ps) = bind (deref g p) (\<lambda>x. bind (deref_all g ps) (\<lambda>xs. Inr (x # xs)))"

fun bfs_for :: "Node list \<Rightarrow> Node list \<times> Node list \<times> nat \<Rightarrow> Node list \<times> Node list \<times> nat" where
  "bfs_for [] (visited, q, count) = (visited, q, count)"
| "bfs_for (n # ns) (visited, q, count) =
     (if \<not> node_in n visited
      then bfs_for ns (visited @ [n], q @ [n], count + 1)
      else bfs_for ns (visited, q, count))"

function bfs_while :: "grid \<Rightarrow> Node list \<times> Node list \<times> nat \<Rightarrow> error + Node list \<times> nat" where
  "bfs_while g (visited, q, count) =
     (case q of
        [] \<Rightarrow> Inr (visited, count)
      | s # q' \<Rightarrow>
          (case deref_all g (node_neighbors s) of
             Inl e \<Rightarrow> Inl e
           | Inr neighbors \<Rightarrow> bfs_while g (bfs_for neighbors (visited, q', count))))"
  by pat_completeness auto

text \<open>
  The loop ends on every grid: a node enters \<open>visited\<close> only when no visited node has
  its \<open>r\<close>, \<open>c\<close> and \<open>value\<close>, and it is a node of the grid, so the grid's triples
  not yet visited become fewer whenever the queue grows. \<open>fresh\<close> lists the nodes that one
  run of the inner loop appends.
\<close>

definition node_key :: "Node \<Rightarrow> nat \<times> nat \<times> string" where
  "node_key x = (node_r x, node_c x, node_value x)"

fun fresh :: "Node list \<Rightarrow> Node list \<Rightarrow> Node list" where
  "fresh [] visited = []"
| "fresh (n # ns) visited =
     (if \<not> node_in n visited then n # fresh ns (visited @ [n]) else fresh ns visited)"

lemma node_in_key: "node_in x xs \<longleftrightarrow> node_key x \<in> node_key ` set xs"
proof -
  have "node_in x xs \<longleftrightarrow> (\<exists>y\<in>set xs. node_key y = node_key x)"
    by (simp add: node_in_def list_ex_iff node_eq_def node_key_def)
  also have "\<dots> \<longleftrightarrow> node_key x \<in> node_key ` set xs"
    by (metis (no_types) image_iff)
  finally show ?thesis .
qed

lemma bfs_for_fresh:
  "bfs_for ns (visited, q, count) =
     (visited @ fresh ns visited, q @ fresh ns visited, count + length (fresh ns visited))"
  by (induction ns arbitrary: visited q count) simp_all

lemma fresh_subset: "set (fresh ns visited) \<subseteq> set ns"
  by (induction ns arbitrary: visited) auto

lemma fresh_keys_new: "node_key ` set (fresh ns visited) \<inter> node_key ` set visited = {}"
proof (induction ns arbitrary: visited)
  case Nil
  then show ?case by simp
next
  case (Cons n ns)
  show ?case
  proof (cases "node_in n visited")
    case True
    then show ?thesis using Cons [of visited] by simp
  next
    case False
    then have "node_key n \<notin> node_key ` set visited" by (simp add: node_in_key)
    then show ?thesis using Cons [of "visited @ [n]"] False by auto
  qed
qed

lemma deref_Inr:
  assumes "deref g p = Inr x"
  shows "x \<in> set (concat g)"
proof -
  obtain a b where p: "p = (a, b)" by (cases p)
  with assms have ab: "a < length g" "b < length (g ! a)" "x = g ! a ! b"
    by (auto simp: deref_def split: if_splits)
  then have "g ! a \<in> set g" "x \<in> set (g ! a)" by simp_all
  then show ?thesis by auto
qed

lemma deref_all_subset: "deref_all g ps = Inr xs \<Longrightarrow> set xs \<subseteq> set (concat g)"
proof (induction ps arbitrary: xs)
  case Nil
  then show ?case by simp
next
  case (Cons p ps)
  then obtain x ys where "deref g p = Inr x" "deref_all g ps = Inr ys" "xs = x # ys"
    by (auto simp: bind_def split: sum.splits)
  then show ?case using Cons.IH [of ys] deref_Inr [of g p x] by simp
qed

termination bfs_while
proof (relation "measures [\<lambda>(g, visited, q, count). card (node_key ` set (concat g) - node_key ` set visited),
                           \<lambda>(g, visited, q, count). length q]")
  show "wf (measures [\<lambda>(g, visited, q, count). card (node_key ` set (concat g) - node_key ` set visited),
                           \<lambda>(g, visited, q, count). length q])"
    by simp
next
  fix g :: grid and visited q :: "Node list" and count :: nat and s q' neighbors
  assume q: "q = s # q'" and d: "deref_all g (node_neighbors s) = Inr neighbors"
  let ?new = "fresh neighbors visited"
  let ?K = "node_key ` set (concat g)"
  have st: "bfs_for neighbors (visited, q', count) = (visited @ ?new, q' @ ?new, count + length ?new)"
    by (rule bfs_for_fresh)
  show "((g, bfs_for neighbors (visited, q', count)), (g, visited, q, count))
       \<in> measures [\<lambda>(g, visited, q, count). card (node_key ` set (concat g) - node_key ` set visited),
                           \<lambda>(g, visited, q, count). length q]"
  proof (cases "?new = []")
    case True
    then show ?thesis using q st by simp
  next
    case False
    then obtain x where x: "x \<in> set ?new" by (cases ?new) auto
    then have "x \<in> set (concat g)"
      using fresh_subset [of neighbors visited] deref_all_subset [OF d] by blast
    then have inK: "node_key x \<in> ?K" by blast
    have notV: "node_key x \<notin> node_key ` set visited"
      using x fresh_keys_new [of neighbors visited] by blast
    have "?K - node_key ` set (visited @ ?new) \<subset> ?K - node_key ` set visited"
      using inK notV x by auto
    then have "card (?K - node_key ` set (visited @ ?new)) < card (?K - node_key ` set visited)"
      by (intro psubset_card_mono) simp_all
    then show ?thesis using st by simp
  qed
qed

declare bfs_while.simps [simp del]

definition bfs :: "grid \<Rightarrow> Node \<Rightarrow> error + nat" where
  "bfs g node = bind (bfs_while g ([node], [] @ [node], 1)) (\<lambda>(visited, count). Inr count)"

section \<open>FitnessEvaluator\<close>







section \<open>Rendering\<close>

text \<open>
  \<open>xs.index(x)\<close>: the first position of \<open>x\<close>, \<open>ValueError\<close> when there is none.
\<close>

fun list_index :: "'a list \<Rightarrow> 'a \<Rightarrow> error + nat" where
  "list_index [] x = Inl ValueError"
| "list_index (y # ys) x = (if y = x then Inr 0 else bind (list_index ys x) (\<lambda>i. Inr (Suc i)))"

text \<open>
  The two \<open>while k < len(bitstring)\<close> loops of \<open>print_pentomino\<close>. Neither ends when
  \<open>bitsize\<close> is \<open>0\<close> and the bitstring is not empty, so both are partial functions
  whose value \<open>None\<close> stands for a loop that runs forever. \<open>collect_pents\<close> is the first
  loop, with the loop variables \<open>k\<close> and \<open>pents\<close>; \<open>bits\<close> is the local
  variable \<open>bitsize\<close>. \<open>print_cells\<close> is the second loop;
  its loop variable \<open>out\<close> is the text printed so far. \<open>k / bitsize\<close> raises
  \<open>ZeroDivisionError\<close> when \<open>bitsize\<close> is \<open>0\<close>.
\<close>

partial_function (option) collect_pents :: "string \<Rightarrow> nat \<Rightarrow> nat \<Rightarrow> string list \<Rightarrow> string list option" where
  "collect_pents bitstring bits k pents =
     (if k < length bitstring
      then collect_pents bitstring bits (k + bits)
             (if \<not> py_slice bitstring (int k) (int k + int bits) \<in> set pents
              then pents @ [py_slice bitstring (int k) (int k + int bits)]
              else pents)
      else Some pents)"

partial_function (option) print_cells ::
  "string \<Rightarrow> nat \<Rightarrow> nat \<Rightarrow> string list \<Rightarrow> nat \<Rightarrow> string \<Rightarrow> (error + string) option" where
  "print_cells bitstring bits m pents k out =
     (if k < length bitstring
      then (case list_index pents (py_slice bitstring (int k) (int k + int bits)) of
              Inl e \<Rightarrow> Some (Inl e)
            | Inr j \<Rightarrow>
                (case py_index reps (int j) of
                   Inl e \<Rightarrow> Some (Inl e)
                 | Inr glyph \<Rightarrow>
                     if bits = 0 then Some (Inl ZeroDivisionError)
                     else if m = 0 then Some (Inl ZeroDivisionError)
                     else print_cells bitstring bits m pents (k + bits)
                            (out @ [glyph, CHR '' ''] @
                               (if ((k + bits) div bits) mod m = 0 \<and> \<not> k + bits = 0
                                then [CHR 0x0A] else []))))
      else Some (Inr out))"

declare collect_pents.simps [code]

declare print_cells.simps [code]

text \<open>
  \<open>Pentomino.print_pentomino(bitstring, m, n)\<close>; the result is the text printed.
  \<open>int(len(bitstring)/(m*n))\<close> raises \<open>ZeroDivisionError\<close> when \<open>m*n\<close> is \<open>0\<close>.
\<close>

definition print_pentomino :: "string \<Rightarrow> nat \<Rightarrow> nat \<Rightarrow> (error + string) option" where
  "print_pentomino bitstring m n =
     (if m * n = 0 then Some (Inl ZeroDivisionError)
      else Option.bind (collect_pents bitstring (length bitstring div (m * n)) 0 [])
             (\<lambda>pents. print_cells bitstring (length bitstring div (m * n)) m pents 0 []))"

section \<open>Reproducer: crossover and mutation\<close>

text \<open>
  \<open>Pentomino.crossover(parents)\<close> reads the two parents from \<open>self.bitstrings\<close> and
  cuts both at \<open>loc = random.randint(0, len(mom))\<close> (both ends included). The drawn
  \<open>loc\<close> is an argument of the model.
\<close>

definition crossover :: "Pentomino \<Rightarrow> int list \<Rightarrow> int \<Rightarrow> error + string list" where
  "crossover self parents loc =
     bind (py_index parents 0) (\<lambda>p0.
     bind (py_index (bitstrings self) p0) (\<lambda>mom.
     bind (py_index parents 1) (\<lambda>p1.
     bind (py_index (bitstrings self) p1) (\<lambda>dad.
       Inr ([] @ [py_slice mom 0 loc @ py_slice dad loc (int (length dad))]
               @ [py_slice dad 0 loc @ py_slice mom loc (int (length mom))])))))"

text \<open>
  \<open>Pentomino.mutation(mutation_rate)\<close>. The calls of \<open>random.random()\<close> are numbered
  in the order in which they happen; \<open>draws k\<close> is the value of call number \<open>k\<close>, a
  number in \<open>[0, 1)\<close>. \<open>mutation_bits\<close> is the inner loop over \<open>i\<close>: it rebinds the
  local variable \<open>b\<close>. \<open>mutation_strings\<close> is the outer loop \<open>for b in self.bitstrings\<close>;
  it collects the final value of \<open>b\<close> of every iteration, which the program computes and
  drops. \<open>mutation\<close> returns the object after the call: no statement of the method assigns
  to a slot of \<open>self\<close> or to an element of \<open>self.bitstrings\<close> (Python strings are
  immutable and \<open>b = ...\<close> rebinds the loop variable only), so the object is returned as
  it was whenever the loops raise nothing.
\<close>

fun mutation_bits ::
  "real \<Rightarrow> (nat \<Rightarrow> real) \<Rightarrow> nat \<Rightarrow> nat list \<Rightarrow> string \<Rightarrow> error + string \<times> nat" where
  "mutation_bits mutation_rate draws k [] b = Inr (b, k)"
| "mutation_bits mutation_rate draws k (i # is) b =
     (if draws k < mutation_rate
      then bind (py_index b (int i)) (\<lambda>ch.
             if ch = CHR ''1''
             then mutation_bits mutation_rate draws (Suc k) is
                    (py_slice b 0 (int i) @ ''0'' @ py_slice b (int i + 1) (int (length b)))
             else mutation_bits mutation_rate draws (Suc k) is
                    (py_slice b 0 (int i) @ ''1'' @ py_slice b (int i + 1) (int (length b))))
      else mutation_bits mutation_rate draws (Suc k) is b)"

fun mutation_strings ::
  "real \<Rightarrow> (nat \<Rightarrow> real) \<Rightarrow> nat \<Rightarrow> string list \<Rightarrow> error + string list \<times> nat" where
  "mutation_strings mutation_rate draws k [] = Inr ([], k)"
| "mutation_strings mutation_rate draws k (b # bs) =
     bind (mutation_bits mutation_rate draws k [0..<length b] b) (\<lambda>(b', k').
     bind (mutation_strings mutation_rate draws k' bs) (\<lambda>(bs', k'').
       Inr (b' # bs', k'')))"

definition mutation :: "Pentomino \<Rightarrow> real \<Rightarrow> (nat \<Rightarrow> real) \<Rightarrow> error + Pentomino" where
  "mutation self mutation_rate draws =
     bind (mutation_strings mutation_rate draws 0 (bitstrings self)) (\<lambda>(locals, k). Inr self)"

section \<open>Selector\<close>

text \<open>
  Scores are Python floats, that is IEEE 754 doubles. A finite double is modelled by its
  real value. \<open>double_round\<close> rounds a real number to the nearest double: the significand
  has 53 bits, a tie goes to the even significand, and below \<open>2 ^ (-1022)\<close> the spacing stays
  \<open>2 ^ (-1074)\<close>. \<open>double_add\<close> and \<open>double_mul\<close> are the float operations \<open>+\<close> and
  \<open>*\<close>: the exact result, rounded. Infinities and NaN are not modelled; a result beyond
  the largest double stays finite here.
\<close>

definition round_half_even :: "real \<Rightarrow> int" where
  "round_half_even q =
     (if q - of_int \<lfloor>q\<rfloor> < 1 / 2 then \<lfloor>q\<rfloor>
      else if 1 / 2 < q - of_int \<lfloor>q\<rfloor> then \<lfloor>q\<rfloor> + 1
      else if even \<lfloor>q\<rfloor> then \<lfloor>q\<rfloor> else \<lfloor>q\<rfloor> + 1)"

definition double_ulp :: "real \<Rightarrow> real" where
  "double_ulp x = 2 powr (of_int (max \<lfloor>log 2 \<bar>x\<bar>\<rfloor> (- 1022)) - 52)"

definition double_round :: "real \<Rightarrow> real" where
  "double_round x =
     (if x = 0 then 0
      else sgn x * of_int (round_half_even (\<bar>x\<bar> / double_ulp x)) * double_ulp x)"

definition double_add :: "real \<Rightarrow> real \<Rightarrow> real" where
  "double_add a b = double_round (a + b)"

definition double_mul :: "real \<Rightarrow> real \<Rightarrow> real" where
  "double_mul a b = double_round (a * b)"

text \<open>
  The loop \<open>while sc < x\<close> of \<open>Pentomino.selection\<close>, with the loop variables \<open>sc\<close>
  and \<open>score\<close> as arguments; \<open>sc += scores[score]\<close> is a float addition. Every
  iteration either makes the loop condition false or increases \<open>score\<close>, and
  \<open>scores[score]\<close> raises once \<open>score\<close> has passed the end, so the loop always ends.
\<close>

function selection_while :: "real list \<Rightarrow> real \<Rightarrow> real \<Rightarrow> nat \<Rightarrow> error + int" where
  "selection_while scores x sc score =
     (if sc < x
      then (case py_index scores (int score) of
              Inl e \<Rightarrow> Inl e
            | Inr s \<Rightarrow>
                (if \<not> double_add sc s \<ge> x
                 then selection_while scores x (double_add sc s) (score + 1)
                 else selection_while scores x (double_add sc s) score))
      else Inr (int score))"
  by pat_completeness auto
termination
proof (relation "measure (\<lambda>(scores, x, sc, score). if sc < x then Suc (length scores - score) else 0)")
  show "wf (measure (\<lambda>(scores, x, sc, score). if sc < x then Suc (length scores - score) else 0))"
    by simp
qed (auto simp: py_index_def Let_def split: if_splits)

declare selection_while.simps [simp del]

text \<open>
  \<open>Pentomino.selection(scores, max_score)\<close>: the loop \<open>for _ in range(0, 2)\<close> draws
  twice; \<open>u1\<close> and \<open>u2\<close> are the two values of \<open>random.random()\<close>, and
  \<open>x = random.random() * max_score\<close> is a float multiplication.
\<close>

definition selection :: "real list \<Rightarrow> real \<Rightarrow> real \<Rightarrow> real \<Rightarrow> error + int list" where
  "selection scores max_score u1 u2 =
     bind (selection_while scores (double_mul u1 max_score) 0 0) (\<lambda>score1.
     bind (selection_while scores (double_mul u2 max_score) 0 0) (\<lambda>score2.
       Inr ([] @ [score1] @ [score2])))"

section \<open>Notions used in the proofs\<close>

text \<open>
  These definitions describe states of the program; none of them is part of it.
  \<open>shaped\<close> says that every grid of the population has \<open>n\<close> rows of \<open>m\<close> nodes;
  \<open>cell\<close> reads a node and \<open>map_cell\<close> changes one; \<open>adjacent_refs\<close> lists, in the
  order above, below, left, right, the positions next to \<open>(r, c)\<close> on the board whose
  value is the value at \<open>(r, c)\<close>; \<open>linked_on D s0 s\<close> says that \<open>s\<close> is \<open>s0\<close> with these
  positions appended to the neighbor lists of the cells in \<open>D\<close>; \<open>before i r c\<close> are the
  cells that the loops of \<open>set_population\<close> reach before cell \<open>(r, c)\<close> of candidate \<open>i\<close>.
\<close>

definition shaped :: "Pentomino \<Rightarrow> bool" where
  "shaped s \<longleftrightarrow>
     (\<forall>i<length (population s). length (population s ! i) = pn s \<and>
        (\<forall>r<pn s. length (population s ! i ! r) = pm s))"

definition cell :: "Pentomino \<Rightarrow> nat \<Rightarrow> nat \<Rightarrow> nat \<Rightarrow> Node" where
  "cell s i r c = population s ! i ! r ! c"

definition map_cell :: "nat \<Rightarrow> nat \<Rightarrow> nat \<Rightarrow> (Node \<Rightarrow> Node) \<Rightarrow> Pentomino \<Rightarrow> Pentomino" where
  "map_cell i r c f s =
     s\<lparr>population := (population s)
         [i := (population s ! i)[r := (population s ! i ! r)[c := f (population s ! i ! r ! c)]]]\<rparr>"

definition add_refs :: "ref list \<Rightarrow> Node \<Rightarrow> Node" where
  "add_refs xs node = node\<lparr>node_neighbors := node_neighbors node @ xs\<rparr>"

definition adjacent_refs :: "nat \<Rightarrow> nat \<Rightarrow> (nat \<Rightarrow> nat \<Rightarrow> string) \<Rightarrow> nat \<Rightarrow> nat \<Rightarrow> ref list" where
  "adjacent_refs n m val r c =
     (if 0 < r \<and> val (r - 1) c = val r c then [(r - 1, c)] else []) @
     (if r + 1 < n \<and> val (r + 1) c = val r c then [(r + 1, c)] else []) @
     (if 0 < c \<and> val r (c - 1) = val r c then [(r, c - 1)] else []) @
     (if c + 1 < m \<and> val r (c + 1) = val r c then [(r, c + 1)] else [])"

definition linked_on :: "(nat \<times> nat \<times> nat) set \<Rightarrow> Pentomino \<Rightarrow> Pentomino \<Rightarrow> bool" where
  "linked_on D s0 s \<longleftrightarrow>
     pm s = pm s0 \<and> pn s = pn s0 \<and> pk s = pk s0 \<and> bitstrings s = bitstrings s0 \<and>
     length (population s) = length (population s0) \<and> shaped s \<and>
     (\<forall>i<length (population s0). \<forall>r<pn s0. \<forall>c<pm s0.
        cell s i r c =
          (if (i, r, c) \<in> D
           then add_refs (adjacent_refs (pn s0) (pm s0) (\<lambda>r c. node_value (cell s0 i r c)) r c) (cell s0 i r c)
           else cell s0 i r c))"

definition before :: "nat \<Rightarrow> nat \<Rightarrow> nat \<Rightarrow> (nat \<times> nat \<times> nat) set" where
  "before i r c = {(i', r', c'). i' < i \<or> (i' = i \<and> (r' < r \<or> (r' = r \<and> c' < c)))}"

text \<open>
  \<open>chunk w m bs r c\<close> is the slice of the bitstring \<open>bs\<close> that the decoding loop reads
  for the cell \<open>(r, c)\<close> of a board with \<open>m\<close> columns. \<open>scenario\<close> is the board of the
  example in the header of pentomino.py, two columns and five rows with the candidate
  \<open>1111100000\<close>, and \<open>scenario_grid\<close> its decoded grid.
\<close>

definition chunk :: "int \<Rightarrow> nat \<Rightarrow> string \<Rightarrow> nat \<Rightarrow> nat \<Rightarrow> string" where
  "chunk w m bs r c = py_slice bs ((int r * int m + int c) * w) ((int r * int m + int c) * w + w)"

definition scenario :: Pentomino where
  "scenario = \<lparr>pm = 2, pn = 5, pk = 1, population = [], bitstrings = [''1111100000'']\<rparr>"

definition scenario_grid :: grid where
  "scenario_grid =
     [[\<lparr>node_r = 0, node_c = 0, node_value = ''1'', node_neighbors = [(1, 0), (0, 1)]\<rparr>,
       \<lparr>node_r = 0, node_c = 1, node_value = ''1'', node_neighbors = [(1, 1), (0, 0)]\<rparr>],
      [\<lparr>node_r = 1, node_c = 0, node_value = ''1'', node_neighbors = [(0, 0), (2, 0), (1, 1)]\<rparr>,
       \<lparr>node_r = 1, node_c = 1, node_value = ''1'', node_neighbors = [(0, 1), (1, 0)]\<rparr>],
      [\<lparr>node_r = 2, node_c = 0, node_value = ''1'', node_neighbors = [(1, 0)]\<rparr>,
       \<lparr>node_r = 2, node_c = 1, node_value = ''0'', node_neighbors = [(3, 1)]\<rparr>],
      [\<lparr>node_r = 3, node_c = 0, node_value = ''0'', node_neighbors = [(4, 0), (3, 1)]\<rparr>,
       \<lparr>node_r = 3, node_c = 1, node_value = ''0'', node_neighbors = [(2, 1), (4, 1), (3, 0)]\<rparr>],
      [\<lparr>node_r = 4, node_c = 0, node_value = ''0'', node_neighbors = [(3, 0), (4, 1)]\<rparr>,
       \<lparr>node_r = 4, node_c = 1, node_value = ''0'', node_neighbors = [(3, 1), (4, 0)]\<rparr>]]"

text \<open>
  \<open>node_at g p\<close> is the node at position \<open>p\<close> of the grid \<open>g\<close>. \<open>linked g\<close> relates a
  position of \<open>g\<close> to every position in the neighbor list of its node. \<open>wf_grid n m g\<close>
  says that \<open>g\<close> has \<open>n\<close> rows of \<open>m\<close> nodes, that every node records its own position
  and that every reference points into the grid. \<open>bfs_inv\<close> is the invariant of the loop
  \<open>while not q.empty()\<close> for a search that started at position \<open>p0\<close>.
\<close>

definition node_at :: "grid \<Rightarrow> ref \<Rightarrow> Node" where
  "node_at g p = g ! fst p ! snd p"

definition linked :: "grid \<Rightarrow> (ref \<times> ref) set" where
  "linked g = {(p, q). fst p < length g \<and> snd p < length (g ! fst p) \<and> q \<in> set (node_neighbors (node_at g p))}"

definition wf_grid :: "nat \<Rightarrow> nat \<Rightarrow> grid \<Rightarrow> bool" where
  "wf_grid n m g \<longleftrightarrow>
     length g = n \<and>
     (\<forall>r<n. length (g ! r) = m \<and>
        (\<forall>c<m. node_r (g ! r ! c) = r \<and> node_c (g ! r ! c) = c \<and>
           (\<forall>p\<in>set (node_neighbors (g ! r ! c)). fst p < n \<and> snd p < m)))"

definition bfs_inv :: "grid \<Rightarrow> ref \<Rightarrow> Node list \<times> Node list \<times> nat \<Rightarrow> bool" where
  "bfs_inv g p0 st \<longleftrightarrow>
     (case st of (visited, q, count) \<Rightarrow>
        distinct visited \<and> count = length visited \<and> set q \<subseteq> set visited \<and>
        set visited \<subseteq> node_at g ` {p. (p0, p) \<in> (linked g)\<^sup>*} \<and> node_at g p0 \<in> set visited \<and>
        (\<forall>v\<in>set visited. v \<notin> set q \<longrightarrow> (\<forall>p\<in>set (node_neighbors v). node_at g p \<in> set visited)))"

text \<open>
  \<open>pent_chunk bitstring bits j\<close> is the slice \<open>bitstring[k:k+bitsize]\<close> that the loops
  of \<open>print_pentomino\<close> read in iteration \<open>j\<close>, where \<open>k = j * bitsize\<close>, and
  \<open>pent_chunks\<close> lists the slices of all iterations. \<open>add_pent\<close> is the statement
  \<open>if not idx in pents: pents.append(idx)\<close>. \<open>nine_pieces\<close> is a candidate of the
  board with nine columns and five rows: the nine chunks \<open>0000\<close> to \<open>1000\<close>, then
  thirty-six chunks \<open>0000\<close>.
\<close>

definition pent_chunk :: "string \<Rightarrow> nat \<Rightarrow> nat \<Rightarrow> string" where
  "pent_chunk bitstring bits j = py_slice bitstring (int (j * bits)) (int (j * bits) + int bits)"

definition pent_chunks :: "string \<Rightarrow> nat \<Rightarrow> string list" where
  "pent_chunks bitstring bits =
     map (pent_chunk bitstring bits) [0..<(length bitstring + bits - 1) div bits]"

definition add_pent :: "string \<Rightarrow> string list \<Rightarrow> string list" where
  "add_pent idx pents = (if \<not> idx \<in> set pents then pents @ [idx] else pents)"

definition nine_pieces :: string where
  "nine_pieces =
     ''0000'' @ ''0001'' @ ''0010'' @ ''0011'' @ ''0100'' @ ''0101'' @ ''0110'' @ ''0111'' @ ''1000'' @
     concat (replicate 36 ''0000'')"

text \<open>
  \<open>ten_tenths\<close> is the list \<open>[0.1] * 10\<close>: ten times the double nearest to one tenth.
\<close>

definition ten_tenths :: "real list" where
  "ten_tenths = [3602879701896397 / 36028797018963968, 3602879701896397 / 36028797018963968, 3602879701896397 / 36028797018963968, 3602879701896397 / 36028797018963968, 3602879701896397 / 36028797018963968, 3602879701896397 / 36028797018963968, 3602879701896397 / 36028797018963968, 3602879701896397 / 36028797018963968, 3602879701896397 / 36028797018963968, 3602879701896397 / 36028797018963968]"

section \<open>Basic facts about the Python operations\<close>

lemma bind_Inr [simp]: "bind (Inr v) f = f v"
  by (simp add: bind_def)

lemma bind_Inl [simp]: "bind (Inl e) f = Inl e"
  by (simp add: bind_def)

lemma py_index_nat: "i < length xs \<Longrightarrow> py_index xs (int i) = Inr (xs ! i)"
  by (simp add: py_index_def)

lemma py_slice_prefix: "py_slice xs 0 (int p) = take p xs"
  by (cases "p \<le> length xs") (simp_all add: py_slice_def py_bound_def min_def)

lemma py_slice_suffix: "py_slice xs (int p) (int (length xs)) = drop p xs"
  by (cases "p \<le> length xs") (simp_all add: py_slice_def py_bound_def min_def)

lemma py_slice_nat:
  "py_slice xs (int a) (int b) = take (b - a) (drop a xs)"
  by (simp add: py_slice_def py_bound_def min_def)

subsection \<open>Crossover\<close>

text \<open>
  Claim C7. Let \<open>mom\<close> and \<open>dad\<close> be the stored bitstrings that the two parent indices
  select, of equal length, and let the cut index \<open>p\<close> be any value from \<open>0\<close> to that
  length, both included. Then \<open>crossover\<close> raises nothing and returns exactly two children,
  \<open>child1 = mom[0:p] + dad[p:]\<close> and \<open>child2 = dad[0:p] + mom[p:]\<close>, and each child
  is as long as the parents.
\<close>

theorem crossover_children:
  assumes mom: "py_index (bitstrings self) p0 = Inr mom"
    and dad: "py_index (bitstrings self) p1 = Inr dad"
    and len: "length mom = length dad"
    and cut: "p \<le> length mom"
  shows "\<exists>child1 child2.
           crossover self [p0, p1] (int p) = Inr [child1, child2] \<and>
           child1 = take p mom @ drop p dad \<and>
           child2 = take p dad @ drop p mom \<and>
           length child1 = length mom \<and> length child2 = length mom"
proof -
  have "crossover self [p0, p1] (int p) = Inr [take p mom @ drop p dad, take p dad @ drop p mom]"
    using mom dad
    by (simp add: crossover_def py_index_def py_slice_prefix py_slice_suffix)
  moreover have "length (take p mom @ drop p dad) = length mom"
    using len cut by simp
  moreover have "length (take p dad @ drop p mom) = length mom"
    using len cut by simp
  ultimately show ?thesis by blast
qed

text \<open>
  The parents \<open>1100\<close> and \<open>0011\<close> cut at \<open>p = 1\<close> give \<open>1011\<close> and \<open>0100\<close>.
\<close>

theorem crossover_children_witness:
  "py_index (bitstrings \<lparr>pm = 2, pn = 2, pk = 2, population = [], bitstrings = [''1100'', ''0011'']\<rparr>) 0 = Inr ''1100'' \<and>
   py_index (bitstrings \<lparr>pm = 2, pn = 2, pk = 2, population = [], bitstrings = [''1100'', ''0011'']\<rparr>) 1 = Inr ''0011'' \<and>
   length ''1100'' = length ''0011'' \<and> (1::nat) \<le> length ''1100'' \<and>
   crossover \<lparr>pm = 2, pn = 2, pk = 2, population = [], bitstrings = [''1100'', ''0011'']\<rparr> [0, 1] 1
     = Inr [''1011'', ''0100'']"
proof -
  let ?self = "\<lparr>pm = 2, pn = 2, pk = 2, population = [], bitstrings = [''1100'', ''0011'']\<rparr>"
  have a: "py_index (bitstrings ?self) 0 = Inr ''1100''" by (simp add: py_index_def)
  have b: "py_index (bitstrings ?self) 1 = Inr ''0011''" by (simp add: py_index_def)
  have c: "length ''1100'' = length ''0011''" by simp
  have d: "(1::nat) \<le> length ''1100''" by simp
  from crossover_children [OF a b c d] a b c d show ?thesis by simp
qed

subsection \<open>Float rounding\<close>

lemma double_ulp_pos: "0 < double_ulp x"
  by (simp add: double_ulp_def)

lemma round_half_even_nonneg: "0 \<le> q \<Longrightarrow> 0 \<le> round_half_even q"
  by (auto simp: round_half_even_def)

lemma double_round_nonpos:
  assumes "x \<le> 0"
  shows "double_round x \<le> 0"
proof (cases "x = 0")
  case True
  then show ?thesis by (simp add: double_round_def)
next
  case False
  have "0 \<le> \<bar>x\<bar> / double_ulp x"
    using double_ulp_pos [of x] by simp
  then have "0 \<le> real_of_int (round_half_even (\<bar>x\<bar> / double_ulp x)) * double_ulp x"
    using round_half_even_nonneg double_ulp_pos [of x] by simp
  moreover have "sgn x = - 1" using assms False by simp
  ultimately show ?thesis using False by (simp add: double_round_def mult.assoc)
qed

lemma double_round_at:
  assumes e: "2 powr of_int e \<le> x" "x < 2 powr (of_int e + 1)" "- 1022 \<le> e"
  shows "double_round x
           = of_int (round_half_even (x / 2 powr (of_int e - 52))) * 2 powr (of_int e - 52)"
proof -
  have "0 < 2 powr real_of_int e" by simp
  then have pos: "0 < x" using e(1) by (rule less_le_trans)
  then have "\<lfloor>log 2 x\<rfloor> = e"
    using e(1,2) by (simp add: floor_log_eq_powr_iff)
  then have "double_ulp x = 2 powr (of_int e - 52)"
    using pos e(3) by (simp add: double_ulp_def)
  then show ?thesis using pos by (simp add: double_round_def)
qed

lemma double_round_1: "double_round 1 = 1"
  using double_round_at [of 0 1] by (simp add: round_half_even_def powr_minus)

lemma double_round_2: "double_round 2 = 2"
  using double_round_at [of 1 2] by (simp add: round_half_even_def powr_minus)

lemma double_round_3: "double_round 3 = 3"
  using double_round_at [of 1 3] by (simp add: round_half_even_def powr_minus)

lemma double_round_4: "double_round 4 = 4"
  using double_round_at [of 2 4] by (simp add: round_half_even_def powr_minus)

text \<open>The literal \<open>0.1\<close> denotes the double nearest to one tenth.\<close>

lemma tenth_literal: "double_round (1 / 10) = 3602879701896397 / 36028797018963968"
  using double_round_at [of "- 4" "1 / 10"]
  by (simp add: round_half_even_def powr_minus)

text \<open>The running sums \<open>0.1 + 0.1 + ...\<close> as the loop accumulates them.\<close>

lemma tenth_0: "double_add 0 (3602879701896397 / 36028797018963968) = 3602879701896397 / 36028797018963968"
  using double_round_at [of "- 4" "3602879701896397 / 36028797018963968"]
  by (simp add: double_add_def round_half_even_def powr_minus)

lemma tenth_1: "double_add (3602879701896397 / 36028797018963968) (3602879701896397 / 36028797018963968) = 3602879701896397 / 18014398509481984"
  using double_round_at [of "- 3" "3602879701896397 / 36028797018963968 + 3602879701896397 / 36028797018963968"]
  by (simp add: double_add_def round_half_even_def powr_minus)

lemma tenth_2: "double_add (3602879701896397 / 18014398509481984) (3602879701896397 / 36028797018963968) = 1351079888211149 / 4503599627370496"
  using double_round_at [of "- 2" "3602879701896397 / 18014398509481984 + 3602879701896397 / 36028797018963968"]
  by (simp add: double_add_def round_half_even_def powr_minus)

lemma tenth_3: "double_add (1351079888211149 / 4503599627370496) (3602879701896397 / 36028797018963968) = 3602879701896397 / 9007199254740992"
  using double_round_at [of "- 2" "1351079888211149 / 4503599627370496 + 3602879701896397 / 36028797018963968"]
  by (simp add: double_add_def round_half_even_def powr_minus)

lemma tenth_4: "double_add (3602879701896397 / 9007199254740992) (3602879701896397 / 36028797018963968) = 1 / 2"
  using double_round_at [of "- 1" "3602879701896397 / 9007199254740992 + 3602879701896397 / 36028797018963968"]
  by (simp add: double_add_def round_half_even_def powr_minus)

lemma tenth_5: "double_add (1 / 2) (3602879701896397 / 36028797018963968) = 5404319552844595 / 9007199254740992"
  using double_round_at [of "- 1" "1 / 2 + 3602879701896397 / 36028797018963968"]
  by (simp add: double_add_def round_half_even_def powr_minus)

lemma tenth_6: "double_add (5404319552844595 / 9007199254740992) (3602879701896397 / 36028797018963968) = 3152519739159347 / 4503599627370496"
  using double_round_at [of "- 1" "5404319552844595 / 9007199254740992 + 3602879701896397 / 36028797018963968"]
  by (simp add: double_add_def round_half_even_def powr_minus)

lemma tenth_7: "double_add (3152519739159347 / 4503599627370496) (3602879701896397 / 36028797018963968) = 7205759403792793 / 9007199254740992"
  using double_round_at [of "- 1" "3152519739159347 / 4503599627370496 + 3602879701896397 / 36028797018963968"]
  by (simp add: double_add_def round_half_even_def powr_minus)

lemma tenth_8: "double_add (7205759403792793 / 9007199254740992) (3602879701896397 / 36028797018963968) = 2026619832316723 / 2251799813685248"
  using double_round_at [of "- 1" "7205759403792793 / 9007199254740992 + 3602879701896397 / 36028797018963968"]
  by (simp add: double_add_def round_half_even_def powr_minus)

lemma tenth_9: "double_add (2026619832316723 / 2251799813685248) (3602879701896397 / 36028797018963968) = 9007199254740991 / 9007199254740992"
  using double_round_at [of "- 1" "2026619832316723 / 2251799813685248 + 3602879701896397 / 36028797018963968"]
  by (simp add: double_add_def round_half_even_def powr_minus)

lemma tenths_run:
  "selection_while ten_tenths 1 0 0 = Inl IndexError"
  by (simp add: ten_tenths_def selection_while.simps py_index_def tenth_0 tenth_1 tenth_2 tenth_3 tenth_4 tenth_5 tenth_6 tenth_7 tenth_8 tenth_9)

subsection \<open>Selection\<close>

lemma selection_while_invariant:
  assumes "score \<le> length scores" "sc = foldl double_add 0 (take score scores)" "sc < x"
    "x \<le> foldl double_add 0 scores" "\<forall>j<score. foldl double_add 0 (take (Suc j) scores) < x"
  shows "\<exists>i<length scores. selection_while scores x sc score = Inr (int i) \<and>
           x \<le> foldl double_add 0 (take (Suc i) scores) \<and>
           (\<forall>j<i. foldl double_add 0 (take (Suc j) scores) < x)"
  using assms
proof (induction "length scores - score" arbitrary: sc score)
  case 0
  then have "sc = foldl double_add 0 scores" by simp
  with 0 show ?case by simp
next
  case (Suc d)
  then have lt: "score < length scores" by simp
  let ?s = "scores ! score"
  have idx: "py_index scores (int score) = Inr ?s"
    using lt by (rule py_index_nat)
  have sum: "foldl double_add 0 (take (Suc score) scores) = double_add sc ?s"
    using lt Suc.prems(2) by (simp add: take_Suc_conv_app_nth)
  show ?case
  proof (cases "x \<le> double_add sc ?s")
    case True
    have "selection_while scores x (double_add sc ?s) score = Inr (int score)"
      using True by (subst selection_while.simps) simp
    then have "selection_while scores x sc score = Inr (int score)"
      using True Suc.prems(3) idx by (subst selection_while.simps) simp
    with lt True sum Suc.prems(5) show ?thesis by auto
  next
    case False
    have step: "selection_while scores x sc score
        = selection_while scores x (double_add sc ?s) (score + 1)"
      using False Suc.prems(3) idx by (subst selection_while.simps) simp
    have "\<forall>j<Suc score. foldl double_add 0 (take (Suc j) scores) < x"
      using Suc.prems(5) False sum by (auto simp: less_Suc_eq)
    with Suc.hyps(1) [of "Suc score" "double_add sc ?s"] Suc.hyps(2) lt sum False Suc.prems(4)
    have "\<exists>i<length scores. selection_while scores x (double_add sc ?s) (Suc score) = Inr (int i) \<and>
           x \<le> foldl double_add 0 (take (Suc i) scores) \<and>
           (\<forall>j<i. foldl double_add 0 (take (Suc j) scores) < x)"
      by simp
    with step show ?thesis by simp
  qed
qed

text \<open>
  Claim C6, as amended. The claim bounds the drawn value by the total of the scores. The
  running sum of the loop is accumulated in floating point, and it can stay below the
  exact total, so the bound that makes the claim true is the total as the program
  accumulates it: \<open>T = (...((0 + scores[0]) + scores[1]) + ...)\<close>, the value that \<open>main\<close>
  passes as \<open>max_score\<close>. For each of the two draws of \<open>selection\<close>, let
  \<open>x = random() * max_score\<close> be the drawn value. When \<open>0 < x \<le> T\<close>, the index returned
  for the draw is inside the score sequence and is the smallest index \<open>i\<close> whose
  accumulated running sum reaches or exceeds \<open>x\<close>: the running sum at \<open>i\<close> is at least
  \<open>x\<close> and the running sum at every earlier index is below \<open>x\<close>. No \<open>IndexError\<close>
  is raised. The entries need not be positive for this.
\<close>

theorem selection_least_index:
  assumes "0 < double_mul u1 max_score" "double_mul u1 max_score \<le> foldl double_add 0 scores"
    and "0 < double_mul u2 max_score" "double_mul u2 max_score \<le> foldl double_add 0 scores"
  shows "\<exists>i1 i2. selection scores max_score u1 u2 = Inr [int i1, int i2] \<and>
           i1 < length scores \<and>
           double_mul u1 max_score \<le> foldl double_add 0 (take (Suc i1) scores) \<and>
           (\<forall>j<i1. foldl double_add 0 (take (Suc j) scores) < double_mul u1 max_score) \<and>
           i2 < length scores \<and>
           double_mul u2 max_score \<le> foldl double_add 0 (take (Suc i2) scores) \<and>
           (\<forall>j<i2. foldl double_add 0 (take (Suc j) scores) < double_mul u2 max_score)"
proof -
  obtain i1 where i1: "i1 < length scores"
      "selection_while scores (double_mul u1 max_score) 0 0 = Inr (int i1)"
      "double_mul u1 max_score \<le> foldl double_add 0 (take (Suc i1) scores)"
      "\<forall>j<i1. foldl double_add 0 (take (Suc j) scores) < double_mul u1 max_score"
    using selection_while_invariant [of 0 scores 0 "double_mul u1 max_score"] assms(1,2) by auto
  obtain i2 where i2: "i2 < length scores"
      "selection_while scores (double_mul u2 max_score) 0 0 = Inr (int i2)"
      "double_mul u2 max_score \<le> foldl double_add 0 (take (Suc i2) scores)"
      "\<forall>j<i2. foldl double_add 0 (take (Suc j) scores) < double_mul u2 max_score"
    using selection_while_invariant [of 0 scores 0 "double_mul u2 max_score"] assms(3,4) by auto
  have "selection scores max_score u1 u2 = Inr [int i1, int i2]"
    using i1(2) i2(2) by (simp add: selection_def)
  with i1 i2 show ?thesis by blast
qed

lemma small_sums:
  "double_add 0 1 = 1" "double_add 1 2 = 3" "double_add 3 1 = 4"
  "double_mul (1 / 2) 4 = 2" "double_mul 1 4 = 4"
  by (simp_all add: double_add_def double_mul_def double_round_1 double_round_2
      double_round_3 double_round_4)

text \<open>
  Scores \<open>1, 2, 1\<close> with total \<open>4\<close>: the draw \<open>x = 2\<close> selects index \<open>1\<close> (running
  sums \<open>1, 3\<close>) and the draw \<open>x = 4\<close> selects index \<open>2\<close>.
\<close>

theorem selection_least_index_witness:
  "0 < double_mul (1 / 2) 4 \<and> double_mul (1 / 2) 4 \<le> foldl double_add 0 [1, 2, 1] \<and>
   0 < double_mul 1 4 \<and> double_mul 1 4 \<le> foldl double_add 0 [1, 2, 1] \<and>
   selection [1, 2, 1] 4 (1 / 2) 1 = Inr [1, 2]"
proof -
  have a: "0 < double_mul (1 / 2) 4" by (simp add: small_sums)
  have b: "double_mul (1 / 2) 4 \<le> foldl double_add 0 [1, 2, 1]" by (simp add: small_sums)
  have c: "0 < double_mul 1 4" by (simp add: small_sums)
  have d: "double_mul 1 4 \<le> foldl double_add 0 [1, 2, 1]" by (simp add: small_sums)
  from selection_least_index [OF a b c d]
  obtain i1 i2 where r: "selection [1, 2, 1] 4 (1 / 2) 1 = Inr [int i1, int i2]"
      "i1 < 3" "(2::real) \<le> foldl double_add 0 (take (Suc i1) [1, 2, 1])"
      "\<forall>j<i1. foldl double_add 0 (take (Suc j) [1, 2, 1]) < 2"
      "i2 < 3" "(4::real) \<le> foldl double_add 0 (take (Suc i2) [1, 2, 1])"
    by (auto simp: small_sums)
  have "i1 \<noteq> 0"
  proof
    assume "i1 = 0"
    with r(3) show False by (simp add: small_sums)
  qed
  moreover have "i1 \<noteq> 2"
  proof
    assume "i1 = 2"
    then have "(1::nat) < i1" by simp
    with r(4) have "foldl double_add 0 (take (Suc 1) [1, 2, 1]) < 2" by blast
    then show False by (simp add: small_sums)
  qed
  ultimately have "i1 = 1" using r(2) by arith
  moreover have "i2 = 2"
  proof -
    have "i2 \<noteq> 0"
    proof
      assume "i2 = 0"
      with r(6) show False by (simp add: small_sums)
    qed
    moreover have "i2 \<noteq> 1"
    proof
      assume "i2 = 1"
      with r(6) show False by (simp add: small_sums)
    qed
    ultimately show ?thesis using r(5) by arith
  qed
  ultimately show ?thesis using r(1) a b c d by simp
qed

text \<open>
  Claim C6 as stated fails. The scores are ten times \<open>0.1\<close>, all positive, and their
  exact total is above \<open>1\<close>. With \<open>max_score = 2\<close> and the draw \<open>0.5\<close> the drawn value
  is \<open>x = 1.0\<close>, inside \<open>(0, total]\<close>. The running sums of the loop are \<open>0.1\<close>, \<open>0.2\<close>,
  \<open>0.30000000000000004\<close>, \<open>0.4\<close>, \<open>0.5\<close>, \<open>0.6\<close>, \<open>0.7\<close>, \<open>0.7999999999999999\<close>,
  \<open>0.8999999999999999\<close>, \<open>0.9999999999999999\<close> (the lemmas \<open>tenth_0\<close> to \<open>tenth_9\<close>), all
  below \<open>x\<close>, so \<open>score\<close> reaches \<open>10\<close> and \<open>scores[10]\<close> raises \<open>IndexError\<close>.
\<close>

theorem selection_exact_total_counterexample:
  "(0::real) < 3602879701896397 / 36028797018963968 \<and>
   double_mul (1 / 2) 2 = 1 \<and> (0::real) < 1 \<and>
   (1::real) \<le> sum_list ten_tenths \<and>
   selection ten_tenths 2 (1 / 2) (1 / 2) = Inl IndexError"
proof -
  have x: "double_mul (1 / 2) 2 = 1" by (simp add: double_mul_def double_round_1)
  then have "selection ten_tenths 2 (1 / 2) (1 / 2) = Inl IndexError"
    by (simp add: selection_def tenths_run)
  moreover have "(1::real) \<le> sum_list ten_tenths" by (simp add: ten_tenths_def)
  ultimately show ?thesis using x by simp
qed

lemma selection_skipped:
  assumes "double_mul u1 max_score \<le> 0" "double_mul u2 max_score \<le> 0"
  shows "selection scores max_score u1 u2 = Inr [0, 0]"
proof -
  have "selection_while scores (double_mul u1 max_score) 0 0 = Inr 0"
    "selection_while scores (double_mul u2 max_score) 0 0 = Inr 0"
    using assms by (subst selection_while.simps, simp)+
  then show ?thesis by (simp add: selection_def)
qed

lemma double_mul_nonpos:
  assumes "max_score \<le> 0" "0 \<le> u"
  shows "double_mul u max_score \<le> 0"
proof -
  have "u * max_score \<le> 0" using assms by (simp add: mult_le_0_iff)
  then show ?thesis unfolding double_mul_def by (rule double_round_nonpos)
qed

text \<open>
  Claim C8, as amended. The claim says that with a non-positive total \<open>selection\<close>
  takes an explicit fallback or fails with an error of its own. The method has neither:
  with \<open>max_score \<le> 0\<close> every drawn value \<open>x = random() * max_score\<close> is at most \<open>0\<close>,
  the loop \<open>while sc < x\<close> is not entered, and index \<open>0\<close> is returned for both
  parents, whatever the scores and the draws are, without an error.
\<close>

theorem selection_nonpositive_total:
  assumes "max_score \<le> 0" "0 \<le> u1" "0 \<le> u2"
  shows "selection scores max_score u1 u2 = Inr [0, 0]"
  using assms by (intro selection_skipped double_mul_nonpos)

text \<open>
  Scores \<open>-1, -2\<close> with total \<open>-3\<close> and the draws \<open>1/2\<close> and \<open>3/4\<close>.
\<close>

theorem selection_nonpositive_total_witness:
  "(-3::real) \<le> 0 \<and> (0::real) \<le> 1/2 \<and> (0::real) \<le> 3/4 \<and>
   selection [-1, -2] (-3) (1/2) (3/4) = Inr [0, 0]"
  using selection_nonpositive_total [of "-3" "1/2" "3/4" "[-1, -2]"] by simp

text \<open>
  Claim C8 as stated fails: for the scores \<open>-1, -2\<close> (total \<open>-3\<close>) and for the scores
  \<open>0, 0, 0\<close> (total \<open>0\<close>) \<open>selection\<close> returns the pair of indices \<open>0, 0\<close> for
  different draws; it raises no error and the result does not depend on the draws.
\<close>

theorem selection_nonpositive_total_counterexample:
  "selection [-1, -2] (-3) (1/2) (3/4) = Inr [0, 0] \<and>
   selection [-1, -2] (-3) 0 (1/4) = Inr [0, 0] \<and>
   selection [0, 0, 0] 0 (1/2) (3/4) = Inr [0, 0]"
  by (simp add: selection_skipped double_mul_nonpos)

subsection \<open>Mutation\<close>

text \<open>
  Claim C1 at the stored bitstring \<open>10\<close> with mutation rate \<open>1\<close> (every draw is below
  the rate): the inner loop computes the complement \<open>01\<close> in the local variable \<open>b\<close>,
  and the object after the call still stores \<open>10\<close>. The claim asks for \<open>01\<close> to be
  stored.
\<close>

theorem mutation_rate_one_not_stored:
  "mutation_strings 1 (\<lambda>k. 1/2) 0 [''10''] = Inr ([''01''], 2) \<and>
   mutation \<lparr>pm = 2, pn = 1, pk = 1, population = [], bitstrings = [''10'']\<rparr> 1 (\<lambda>k. 1/2)
     = Inr \<lparr>pm = 2, pn = 1, pk = 1, population = [], bitstrings = [''10'']\<rparr>"
  by (simp add: mutation_def upt_rec py_index_def py_slice_def py_bound_def)

subsection \<open>Node lookup\<close>

text \<open>
  Claim C10. Let \<open>idx\<close> be the index of a candidate (\<open>self.population[idx]\<close> is the
  grid \<open>g\<close>) in a population whose grids have \<open>n\<close> rows of \<open>m\<close> nodes each. Then for
  every pair \<open>(row, col)\<close> of integers \<open>get_node\<close> raises nothing: it returns \<open>None\<close>
  exactly when \<open>row < 0\<close>, \<open>col < 0\<close>, \<open>row \<ge> n\<close> or \<open>col \<ge> m\<close>, and otherwise the
  node stored at that row and column of \<open>g\<close>.
\<close>

theorem get_node_total:
  assumes idx: "py_index (population self) idx = Inr g"
    and rows: "length g = pn self"
    and cols: "\<forall>lst\<in>set g. length lst = pm self"
  shows "get_node self idx row col =
           (if row < 0 \<or> col < 0 \<or> row \<ge> int (pn self) \<or> col \<ge> int (pm self)
            then Inr None
            else Inr (Some (g ! nat row ! nat col)))"
proof (cases "row < 0 \<or> col < 0 \<or> row \<ge> int (pn self) \<or> col \<ge> int (pm self)")
  case True
  then show ?thesis by (auto simp: get_node_def)
next
  case False
  then have r: "py_index g row = Inr (g ! nat row)"
    using rows by (simp add: py_index_def)
  have "nat row < length g" using False rows by arith
  then have "g ! nat row \<in> set g" by (rule nth_mem)
  then have "length (g ! nat row) = pm self" using cols by blast
  then have c: "py_index (g ! nat row) col = Inr (g ! nat row ! nat col)"
    using False by (simp add: py_index_def)
  show ?thesis using False idx r c by (simp add: get_node_def)
qed

text \<open>
  A board with two columns and one row: \<open>get_node(0, 0, 1)\<close> is the second node of the
  row, and \<open>get_node(0, 1, 0)\<close> and \<open>get_node(0, 0, -1)\<close> are \<open>None\<close>.
\<close>

theorem get_node_total_witness:
  "py_index (population \<lparr>pm = 2, pn = 1, pk = 1,
       population = [[[new_Node 0 0 ''0'', new_Node 0 1 ''1'']]], bitstrings = [''01'']\<rparr>) 0
     = Inr [[new_Node 0 0 ''0'', new_Node 0 1 ''1'']] \<and>
   get_node \<lparr>pm = 2, pn = 1, pk = 1,
       population = [[[new_Node 0 0 ''0'', new_Node 0 1 ''1'']]], bitstrings = [''01'']\<rparr> 0 0 1
     = Inr (Some (new_Node 0 1 ''1'')) \<and>
   get_node \<lparr>pm = 2, pn = 1, pk = 1,
       population = [[[new_Node 0 0 ''0'', new_Node 0 1 ''1'']]], bitstrings = [''01'']\<rparr> 0 1 0
     = Inr None \<and>
   get_node \<lparr>pm = 2, pn = 1, pk = 1,
       population = [[[new_Node 0 0 ''0'', new_Node 0 1 ''1'']]], bitstrings = [''01'']\<rparr> 0 0 (- 1)
     = Inr None"
proof -
  let ?g = "[[new_Node 0 0 ''0'', new_Node 0 1 ''1'']]"
  let ?self = "\<lparr>pm = 2, pn = 1, pk = 1, population = [?g], bitstrings = [''01'']\<rparr>"
  have a: "py_index (population ?self) 0 = Inr ?g" by (simp add: py_index_def)
  have b: "length ?g = pn ?self" by simp
  have c: "\<forall>lst\<in>set ?g. length lst = pm ?self" by simp
  show ?thesis
    using a get_node_total [OF a b c, of 0 1] get_node_total [OF a b c, of 1 0]
      get_node_total [OF a b c, of 0 "- 1"]
    by simp
qed

section \<open>Decoding\<close>

lemma populate_cols_upt:
  "populate_cols bs w r [c0..<m] (lst, i) =
     (lst @ map (\<lambda>c. new_Node r c (py_slice bs (i + int (c - c0) * w) (i + int (c - c0) * w + w))) [c0..<m],
      i + int (m - c0) * w)"
proof (induction "m - c0" arbitrary: c0 lst i)
  case 0
  then show ?case by simp
next
  case (Suc d)
  then have lt: "c0 < m" and d: "d = m - Suc c0" by simp_all
  have shift: "map (\<lambda>c. new_Node r c (py_slice bs (i + w + int (c - Suc c0) * w) (i + w + int (c - Suc c0) * w + w))) [Suc c0..<m]
        = map (\<lambda>c. new_Node r c (py_slice bs (i + int (c - c0) * w) (i + int (c - c0) * w + w))) [Suc c0..<m]"
  proof (rule map_cong [OF refl])
    fix c assume "c \<in> set [Suc c0..<m]"
    then have "int (c - c0) = int (c - Suc c0) + 1" by auto
    then have eq: "i + w + int (c - Suc c0) * w = i + int (c - c0) * w"
      by (simp add: algebra_simps)
    show "new_Node r c (py_slice bs (i + w + int (c - Suc c0) * w) (i + w + int (c - Suc c0) * w + w))
        = new_Node r c (py_slice bs (i + int (c - c0) * w) (i + int (c - c0) * w + w))"
      by (simp only: eq)
  qed
  have end_eq: "i + w + int (m - Suc c0) * w = i + int (m - c0) * w"
  proof -
    have "int (m - c0) = int (m - Suc c0) + 1" using lt by auto
    then show ?thesis by (simp add: algebra_simps)
  qed
  show ?case
    using Suc.hyps(1) [OF d, of "lst @ [new_Node r c0 (py_slice bs i (i + w))]" "i + w"] lt shift end_eq
    by (simp add: upt_conv_Cons)
qed

lemma populate_rows_upt:
  "populate_rows bs w m [r0..<n] (grid, i) =
     (grid @ map (\<lambda>r. map (\<lambda>c. new_Node r c
          (py_slice bs (i + (int (r - r0) * int m + int c) * w) (i + (int (r - r0) * int m + int c) * w + w)))
          [0..<m]) [r0..<n],
      i + int (n - r0) * int m * w)"
proof (induction "n - r0" arbitrary: r0 grid i)
  case 0
  then show ?case by simp
next
  case (Suc d)
  then have lt: "r0 < n" and d: "d = n - Suc r0" by simp_all
  have shift: "map (\<lambda>r. map (\<lambda>c. new_Node r c
          (py_slice bs (i + int m * w + (int (r - Suc r0) * int m + int c) * w)
                       (i + int m * w + (int (r - Suc r0) * int m + int c) * w + w))) [0..<m]) [Suc r0..<n]
      = map (\<lambda>r. map (\<lambda>c. new_Node r c
          (py_slice bs (i + (int (r - r0) * int m + int c) * w) (i + (int (r - r0) * int m + int c) * w + w)))
          [0..<m]) [Suc r0..<n]"
  proof (rule map_cong [OF refl])
    fix r assume "r \<in> set [Suc r0..<n]"
    then have "int (r - r0) = int (r - Suc r0) + 1" by auto
    then have eq: "\<And>c. i + int m * w + (int (r - Suc r0) * int m + int c) * w = i + (int (r - r0) * int m + int c) * w"
      by (simp add: algebra_simps)
    show "map (\<lambda>c. new_Node r c
          (py_slice bs (i + int m * w + (int (r - Suc r0) * int m + int c) * w)
                       (i + int m * w + (int (r - Suc r0) * int m + int c) * w + w))) [0..<m]
       = map (\<lambda>c. new_Node r c
          (py_slice bs (i + (int (r - r0) * int m + int c) * w) (i + (int (r - r0) * int m + int c) * w + w))) [0..<m]"
      by (simp only: eq)
  qed
  have end_eq: "i + int m * w + int (n - Suc r0) * int m * w = i + int (n - r0) * int m * w"
  proof -
    have "int (n - r0) = int (n - Suc r0) + 1" using lt by auto
    then show ?thesis by (simp add: algebra_simps)
  qed
  have row: "populate_cols bs w r0 [0..<m] ([], i) =
      (map (\<lambda>c. new_Node r0 c (py_slice bs (i + int c * w) (i + int c * w + w))) [0..<m], i + int m * w)"
    using populate_cols_upt [of bs w r0 0 m "[]" i] by simp
  show ?case
    using Suc.hyps(1) [OF d, of "grid @ [map (\<lambda>c. new_Node r0 c (py_slice bs (i + int c * w) (i + int c * w + w))) [0..<m]]" "i + int m * w"]
      lt shift end_eq row
    by (simp add: upt_conv_Cons)
qed

lemma populate_eq:
  "populate self w bs =
     map (\<lambda>r. map (\<lambda>c. new_Node r c
        (py_slice bs ((int r * int (pm self) + int c) * w) ((int r * int (pm self) + int c) * w + w)))
        [0..<pm self]) [0..<pn self]"
  using populate_rows_upt [of bs w "pm self" 0 "pn self" "[]" 0]
  by (simp add: populate_def)

lemma concat_chunks:
  "concat (map (\<lambda>k. take w (drop (k * w) xs)) [0..<N]) = take (N * w) xs"
proof (induction N)
  case 0
  then show ?case by simp
next
  case (Suc N)
  have "take (N * w) xs @ take w (drop (N * w) xs) = take (N * w + w) xs"
    by (simp add: take_add)
  with Suc show ?case by (simp add: add.commute)
qed

lemma concat_row_chunks:
  "concat (map (\<lambda>c. take w (drop ((r * m + c) * w) xs)) [0..<m]) = take (m * w) (drop (r * (m * w)) xs)"
proof -
  have "\<And>c. take w (drop ((r * m + c) * w) xs) = take w (drop (c * w) (drop (r * (m * w)) xs))"
    by (simp add: algebra_simps)
  then show ?thesis
    using concat_chunks [of w "drop (r * (m * w)) xs" m] by simp
qed

lemma concat_grid_chunks:
  "concat (map (\<lambda>r. concat (map (\<lambda>c. take w (drop ((r * m + c) * w) xs)) [0..<m])) [0..<n])
     = take (n * (m * w)) xs"
  using concat_chunks [of "m * w" xs n] by (simp add: concat_row_chunks)

lemma get_node_shaped:
  assumes "shaped s" "i < length (population s)"
  shows "get_node s (int i) row col =
           Inr (if 0 \<le> row \<and> 0 \<le> col \<and> row < int (pn s) \<and> col < int (pm s)
                then Some (cell s i (nat row) (nat col)) else None)"
proof (cases "0 \<le> row \<and> 0 \<le> col \<and> row < int (pn s) \<and> col < int (pm s)")
  case False
  then show ?thesis by (auto simp: get_node_def)
next
  case True
  then have r: "nat row < pn s" and c: "nat col < pm s" by auto
  have g: "py_index (population s) (int i) = Inr (population s ! i)"
    using assms(2) by (rule py_index_nat)
  have "length (population s ! i) = pn s"
    using assms by (simp add: shaped_def)
  then have l: "py_index (population s ! i) row = Inr (population s ! i ! nat row)"
    using py_index_nat [of "nat row" "population s ! i"] r True by simp
  have "length (population s ! i ! nat row) = pm s"
    using assms r by (simp add: shaped_def)
  then have n: "py_index (population s ! i ! nat row) col = Inr (population s ! i ! nat row ! nat col)"
    using py_index_nat [of "nat col" "population s ! i ! nat row"] c True by simp
  show ?thesis using True g l n by (simp add: get_node_def cell_def)
qed

lemma map_cell_fields [simp]:
  "pm (map_cell i r c f s) = pm s" "pn (map_cell i r c f s) = pn s"
  "pk (map_cell i r c f s) = pk s" "bitstrings (map_cell i r c f s) = bitstrings s"
  "length (population (map_cell i r c f s)) = length (population s)"
  by (simp_all add: map_cell_def)

lemma population_map_cell_nth:
  assumes "j < length (population s)"
  shows "population (map_cell i r c f s) ! j =
           (if j = i then (population s ! i)[r := (population s ! i ! r)[c := f (population s ! i ! r ! c)]]
            else population s ! j)"
  using assms by (simp add: map_cell_def nth_list_update)

lemma row_map_cell_nth:
  assumes "j < length (population s)" "q < length (population s ! j)"
  shows "population (map_cell i r c f s) ! j ! q =
           (if j = i \<and> q = r then (population s ! i ! r)[c := f (population s ! i ! r ! c)]
            else population s ! j ! q)"
  using assms by (cases "j = i"; cases "q = r") (simp_all add: population_map_cell_nth)

lemma shaped_map_cell:
  assumes "shaped s"
  shows "shaped (map_cell i r c f s)"
  unfolding shaped_def
proof (intro allI impI)
  fix j assume "j < length (population (map_cell i r c f s))"
  then have j: "j < length (population s)" by simp
  have rows: "length (population s ! j) = pn s" using assms j by (simp add: shaped_def)
  have cols: "\<And>q. q < pn s \<Longrightarrow> length (population s ! j ! q) = pm s"
    using assms j by (simp add: shaped_def)
  have "length (population (map_cell i r c f s) ! j) = pn s"
    using j rows by (cases "j = i") (simp_all add: population_map_cell_nth)
  moreover have "\<And>q. q < pn s \<Longrightarrow> length (population (map_cell i r c f s) ! j ! q) = pm s"
    using j rows cols by (cases "j = i") (simp_all add: row_map_cell_nth)
  ultimately show "length (population (map_cell i r c f s) ! j) = pn (map_cell i r c f s) \<and>
        (\<forall>q<pn (map_cell i r c f s). length (population (map_cell i r c f s) ! j ! q) = pm (map_cell i r c f s))"
    by simp
qed

lemma cell_map_cell:
  assumes "shaped s" "i' < length (population s)" "r' < pn s" "c' < pm s"
  shows "cell (map_cell i r c f s) i' r' c' =
           (if i' = i \<and> r' = r \<and> c' = c then f (cell s i r c) else cell s i' r' c')"
proof -
  have rows: "length (population s ! i') = pn s" using assms by (simp add: shaped_def)
  have cols: "length (population s ! i' ! r') = pm s" using assms by (simp add: shaped_def)
  show ?thesis
    using assms rows cols
    by (cases "i' = i"; cases "r' = r"; cases "c' = c") (simp_all add: cell_def row_map_cell_nth)
qed

lemma map_cell_compose:
  assumes "shaped s" "i < length (population s)" "r < pn s" "c < pm s"
  shows "map_cell i r c f (map_cell i r c g s) = map_cell i r c (f \<circ> g) s"
proof -
  have rows: "length (population s ! i) = pn s" using assms by (simp add: shaped_def)
  have cols: "length (population s ! i ! r) = pm s" using assms by (simp add: shaped_def)
  show ?thesis
    using assms rows cols by (simp add: map_cell_def)
qed

lemma map_cell_add_none:
  "map_cell i r c (add_refs []) s = s"
  by (simp add: map_cell_def add_refs_def)

lemma add_refs_compose: "add_refs ys \<circ> add_refs xs = add_refs (xs @ ys)"
  by (rule ext) (simp add: add_refs_def)

lemma add_refs_value [simp]: "node_value (add_refs xs node) = node_value node"
  by (simp add: add_refs_def)

lemma append_neighbor_eq:
  assumes "shaped s" "i < length (population s)" "r < pn s" "c < pm s"
  shows "append_neighbor s i r c x = Inr (map_cell i r c (add_refs [x]) s)"
proof -
  have rows: "length (population s ! i) = pn s" using assms by (simp add: shaped_def)
  have cols: "length (population s ! i ! r) = pm s" using assms by (simp add: shaped_def)
  show ?thesis
    using assms rows cols
    by (simp add: append_neighbor_def py_index_nat map_cell_def add_refs_def)
qed

lemma link_to_eq:
  assumes "shaped s" "i < length (population s)" "r < pn s" "c < pm s"
  shows "link_to s i r c other x =
           Inr (map_cell i r c
                  (add_refs (case other of None \<Rightarrow> []
                     | Some node \<Rightarrow> if node_value node = node_value (cell s i r c) then [x] else [])) s)"
proof (cases other)
  case None
  then show ?thesis by (simp add: link_to_def map_cell_add_none)
next
  case (Some node)
  have "get_node s (int i) (int r) (int c) = Inr (Some (cell s i r c))"
    using get_node_shaped [OF assms(1,2), of "int r" "int c"] assms(3,4) by simp
  then show ?thesis
    using Some append_neighbor_eq [OF assms] by (simp add: link_to_def map_cell_add_none)
qed

lemma link_to_after:
  assumes "shaped s" "i < length (population s)" "r < pn s" "c < pm s"
  shows "link_to (map_cell i r c (add_refs xs) s) i r c other x =
           Inr (map_cell i r c
                  (add_refs (xs @ (case other of None \<Rightarrow> []
                     | Some node \<Rightarrow> if node_value node = node_value (cell s i r c) then [x] else []))) s)"
proof -
  let ?s1 = "map_cell i r c (add_refs xs) s"
  have sh: "shaped ?s1" using assms(1) by (rule shaped_map_cell)
  have v: "node_value (cell ?s1 i r c) = node_value (cell s i r c)"
    using assms by (simp add: cell_map_cell)
  have "link_to ?s1 i r c other x =
      Inr (map_cell i r c
                  (add_refs (case other of None \<Rightarrow> []
                     | Some node \<Rightarrow> if node_value node = node_value (cell ?s1 i r c) then [x] else [])) ?s1)"
    using sh assms(2-4) by (intro link_to_eq) simp_all
  then show ?thesis
    using assms by (simp only: v map_cell_compose add_refs_compose)
qed

lemma link_cell_eq:
  assumes "shaped s" "i < length (population s)" "r < pn s" "c < pm s"
  shows "link_cell i r c s =
           Inr (map_cell i r c
                  (add_refs (adjacent_refs (pn s) (pm s) (\<lambda>r c. node_value (cell s i r c)) r c)) s)"
proof -
  have above: "get_node s (int i) (int r - 1) (int c) = Inr (if 0 < r then Some (cell s i (r - 1) c) else None)"
    using get_node_shaped [OF assms(1,2), of "int r - 1" "int c"] assms(3,4)
    by (auto simp: nat_diff_distrib)
  have below: "get_node s (int i) (int r + 1) (int c) = Inr (if r + 1 < pn s then Some (cell s i (r + 1) c) else None)"
    using get_node_shaped [OF assms(1,2), of "int r + 1" "int c"] assms(3,4)
    by (auto simp: nat_add_distrib)
  have left: "get_node s (int i) (int r) (int c - 1) = Inr (if 0 < c then Some (cell s i r (c - 1)) else None)"
    using get_node_shaped [OF assms(1,2), of "int r" "int c - 1"] assms(3,4)
    by (auto simp: nat_diff_distrib)
  have right: "get_node s (int i) (int r) (int c + 1) = Inr (if c + 1 < pm s then Some (cell s i r (c + 1)) else None)"
    using get_node_shaped [OF assms(1,2), of "int r" "int c + 1"] assms(3,4)
    by (auto simp: nat_add_distrib)
  show ?thesis
    unfolding link_cell_def above below left right bind_Inr
    by (simp add: link_to_eq [OF assms] link_to_after [OF assms] adjacent_refs_def)
qed

lemma for_each_upt_invariant:
  assumes step: "\<And>k t. k < n \<Longrightarrow> I k t \<Longrightarrow> \<exists>t'. body k t = Inr t' \<and> I (Suc k) t'"
  shows "k0 \<le> n \<Longrightarrow> I k0 s \<Longrightarrow> \<exists>s'. for_each [k0..<n] body s = Inr s' \<and> I n s'"
proof (induction "n - k0" arbitrary: k0 s)
  case 0
  then show ?case by simp
next
  case (Suc d)
  then have lt: "k0 < n" by simp
  from step [OF lt Suc.prems(2)] obtain t'
    where t': "body k0 s = Inr t'" "I (Suc k0) t'" by blast
  have "d = n - Suc k0" using Suc.hyps(2) by simp
  from Suc.hyps(1) [OF this _ t'(2)] lt obtain s'
    where "for_each [Suc k0..<n] body t' = Inr s'" "I n s'" by auto
  then show ?case using lt t'(1) by (simp add: upt_conv_Cons)
qed

lemma linked_on_start: "shaped s \<Longrightarrow> linked_on {} s s"
  by (simp add: linked_on_def)

lemma linked_on_value:
  assumes "linked_on D s0 s" "i < length (population s0)" "r < pn s0" "c < pm s0"
  shows "node_value (cell s i r c) = node_value (cell s0 i r c)"
  using assms by (simp add: linked_on_def)

lemma link_cell_step:
  assumes l: "linked_on D s0 s" and i: "i < length (population s0)" and r: "r < pn s0"
    and c: "c < pm s0" and new: "(i, r, c) \<notin> D"
  shows "\<exists>s'. link_cell i r c s = Inr s' \<and> linked_on (insert (i, r, c) D) s0 s'"
proof -
  have sh: "shaped s" and dims: "pm s = pm s0" "pn s = pn s0" "length (population s) = length (population s0)"
    using l by (simp_all add: linked_on_def)
  let ?xs = "adjacent_refs (pn s) (pm s) (\<lambda>r c. node_value (cell s i r c)) r c"
  let ?ys = "adjacent_refs (pn s0) (pm s0) (\<lambda>r c. node_value (cell s0 i r c)) r c"
  let ?s' = "map_cell i r c (add_refs ?xs) s"
  have eq: "link_cell i r c s = Inr ?s'"
    using sh i r c dims by (intro link_cell_eq) simp_all
  have val: "\<And>r' c'. r' < pn s0 \<Longrightarrow> c' < pm s0 \<Longrightarrow> node_value (cell s i r' c') = node_value (cell s0 i r' c')"
    using linked_on_value [OF l i] by simp
  have xs: "?xs = ?ys"
    using r c by (auto simp: adjacent_refs_def dims val)
  have here: "cell s i r c = cell s0 i r c"
    using l i r c new by (simp add: linked_on_def)
  have "linked_on (insert (i, r, c) D) s0 ?s'"
    unfolding linked_on_def
  proof (intro conjI allI impI)
    fix i' r' c' assume b: "i' < length (population s0)" "r' < pn s0" "c' < pm s0"
    have old: "cell s i' r' c' =
          (if (i', r', c') \<in> D
           then add_refs (adjacent_refs (pn s0) (pm s0) (\<lambda>r c. node_value (cell s0 i' r c)) r' c') (cell s0 i' r' c')
           else cell s0 i' r' c')"
      using l b by (simp add: linked_on_def)
    have "cell ?s' i' r' c' = (if i' = i \<and> r' = r \<and> c' = c then add_refs ?xs (cell s i r c) else cell s i' r' c')"
      using sh b dims by (intro cell_map_cell) simp_all
    then show "cell ?s' i' r' c' =
          (if (i', r', c') \<in> insert (i, r, c) D
           then add_refs (adjacent_refs (pn s0) (pm s0) (\<lambda>r c. node_value (cell s0 i' r c)) r' c') (cell s0 i' r' c')
           else cell s0 i' r' c')"
      using old xs here by auto
  qed (use l sh in \<open>simp_all add: linked_on_def shaped_map_cell\<close>)
  with eq show ?thesis by blast
qed

lemma linked_on_same_cells:
  assumes "linked_on D s0 s"
    and "\<And>i r c. i < length (population s0) \<Longrightarrow> r < pn s0 \<Longrightarrow> c < pm s0 \<Longrightarrow> (i, r, c) \<in> D \<longleftrightarrow> (i, r, c) \<in> D'"
  shows "linked_on D' s0 s"
  using assms by (simp add: linked_on_def)

lemma link_cols:
  assumes l: "linked_on (before i r 0) s0 s" and i: "i < length (population s0)" and r: "r < pn s0"
  shows "\<exists>s'. for_each [0..<pm s] (\<lambda>c self. link_cell i r c self) s = Inr s' \<and>
           linked_on (before i (Suc r) 0) s0 s'"
proof -
  have m: "pm s = pm s0" using l by (simp add: linked_on_def)
  have "\<exists>s'. for_each [0..<pm s0] (\<lambda>c self. link_cell i r c self) s = Inr s' \<and>
           linked_on (before i r (pm s0)) s0 s'"
  proof (rule for_each_upt_invariant [where I = "\<lambda>c t. linked_on (before i r c) s0 t"])
    fix c t assume c: "c < pm s0" and t: "linked_on (before i r c) s0 t"
    have "(i, r, c) \<notin> before i r c" by (simp add: before_def)
    from link_cell_step [OF t i r c this]
    obtain t' where "link_cell i r c t = Inr t'" "linked_on (insert (i, r, c) (before i r c)) s0 t'"
      by blast
    moreover have "insert (i, r, c) (before i r c) = before i r (Suc c)"
      by (auto simp: before_def)
    ultimately show "\<exists>t'. link_cell i r c t = Inr t' \<and> linked_on (before i r (Suc c)) s0 t'"
      by simp
  qed (use l in simp_all)
  then obtain s' where s': "for_each [0..<pm s0] (\<lambda>c self. link_cell i r c self) s = Inr s'"
      "linked_on (before i r (pm s0)) s0 s'" by blast
  have "linked_on (before i (Suc r) 0) s0 s'"
    using s'(2) by (rule linked_on_same_cells) (auto simp: before_def)
  with s'(1) m show ?thesis by simp
qed

lemma link_rows:
  assumes l: "linked_on (before i 0 0) s0 s" and i: "i < length (population s0)"
  shows "\<exists>s'. for_each [0..<pn s] (\<lambda>r self.
             for_each [0..<pm self] (\<lambda>c self. link_cell i r c self) self) s = Inr s' \<and>
           linked_on (before (Suc i) 0 0) s0 s'"
proof -
  have n: "pn s = pn s0" using l by (simp add: linked_on_def)
  have "\<exists>s'. for_each [0..<pn s0] (\<lambda>r self.
             for_each [0..<pm self] (\<lambda>c self. link_cell i r c self) self) s = Inr s' \<and>
           linked_on (before i (pn s0) 0) s0 s'"
  proof (rule for_each_upt_invariant [where I = "\<lambda>r t. linked_on (before i r 0) s0 t"])
    fix r t assume "r < pn s0" "linked_on (before i r 0) s0 t"
    then show "\<exists>t'. for_each [0..<pm t] (\<lambda>c self. link_cell i r c self) t = Inr t' \<and>
        linked_on (before i (Suc r) 0) s0 t'"
      using i by (intro link_cols)
  qed (use l in simp_all)
  then obtain s' where s': "for_each [0..<pn s0] (\<lambda>r self.
             for_each [0..<pm self] (\<lambda>c self. link_cell i r c self) self) s = Inr s'"
      "linked_on (before i (pn s0) 0) s0 s'" by blast
  have "linked_on (before (Suc i) 0 0) s0 s'"
    using s'(2) by (rule linked_on_same_cells) (auto simp: before_def)
  with s'(1) n show ?thesis by simp
qed

lemma set_up_neighbors_linked:
  assumes "shaped s0"
  shows "\<exists>s'. set_up_neighbors (length (population s0)) s0 = Inr s' \<and> linked_on UNIV s0 s'"
proof -
  have "\<exists>s'. for_each [0..<length (population s0)] (\<lambda>i self.
       for_each [0..<pn self] (\<lambda>r self.
         for_each [0..<pm self] (\<lambda>c self. link_cell i r c self) self) self) s0 = Inr s' \<and>
       linked_on (before (length (population s0)) 0 0) s0 s'"
  proof (rule for_each_upt_invariant [where I = "\<lambda>i t. linked_on (before i 0 0) s0 t"])
    fix i t assume "i < length (population s0)" "linked_on (before i 0 0) s0 t"
    then show "\<exists>t'. for_each [0..<pn t] (\<lambda>r self.
         for_each [0..<pm self] (\<lambda>c self. link_cell i r c self) self) t = Inr t' \<and>
        linked_on (before (Suc i) 0 0) s0 t'"
      by (intro link_rows)
  next
    have "before 0 0 0 = {}" by (simp add: before_def)
    then show "linked_on (before 0 0 0) s0 s0" using assms by (simp add: linked_on_start)
  qed simp
  then obtain s' where s': "set_up_neighbors (length (population s0)) s0 = Inr s'"
      "linked_on (before (length (population s0)) 0 0) s0 s'"
    by (auto simp: set_up_neighbors_def)
  have "linked_on UNIV s0 s'"
    using s'(2) by (rule linked_on_same_cells) (auto simp: before_def)
  with s'(1) show ?thesis by blast
qed

section \<open>Decoded grids\<close>

lemma chunk_nat: "chunk (int w) m bs r c = take w (drop ((r * m + c) * w) bs)"
proof -
  have "py_slice bs (int ((r * m + c) * w)) (int ((r * m + c) * w + w))
      = take w (drop ((r * m + c) * w) bs)"
    by (simp only: py_slice_nat) simp
  then show ?thesis by (simp add: chunk_def)
qed

lemma populate_cell:
  assumes "r < pn self" "c < pm self"
  shows "length (populate self w bs) = pn self"
    and "length (populate self w bs ! r) = pm self"
    and "populate self w bs ! r ! c = new_Node r c (chunk w (pm self) bs r c)"
  using assms by (simp_all add: populate_eq chunk_def)

lemma set_population_decoded:
  assumes w: "bitsize self = Inr w"
  shows "\<exists>s'. set_population self bss = Inr s' \<and>
           pm s' = pm self \<and> pn s' = pn self \<and> pk s' = pk self \<and>
           bitstrings s' = bitstrings self \<and>
           length (population s') = length bss \<and> shaped s' \<and>
           (\<forall>i<length bss. \<forall>r<pn self. \<forall>c<pm self.
              cell s' i r c =
                \<lparr>node_r = r, node_c = c, node_value = chunk w (pm self) (bss ! i) r c,
                 node_neighbors = adjacent_refs (pn self) (pm self) (chunk w (pm self) (bss ! i)) r c\<rparr>)"
proof -
  let ?s0 = "self\<lparr>population := map (populate self w) bss\<rparr>"
  have cell0: "cell ?s0 i r c = new_Node r c (chunk w (pm self) (bss ! i) r c)"
    if "i < length bss" "r < pn self" "c < pm self" for i r c
    using that by (simp add: cell_def populate_cell)
  have sh: "shaped ?s0"
    by (simp add: shaped_def populate_eq)
  from set_up_neighbors_linked [OF sh]
  obtain s' where s': "set_up_neighbors (length bss) ?s0 = Inr s'" "linked_on UNIV ?s0 s'"
    by auto
  have run: "set_population self bss = Inr s'"
    using w s'(1) by (simp add: set_population_def)
  have cells: "cell s' i r c =
                \<lparr>node_r = r, node_c = c, node_value = chunk w (pm self) (bss ! i) r c,
                 node_neighbors = adjacent_refs (pn self) (pm self) (chunk w (pm self) (bss ! i)) r c\<rparr>"
    if b: "i < length bss" "r < pn self" "c < pm self" for i r c
  proof -
    have "cell s' i r c = add_refs (adjacent_refs (pn self) (pm self) (\<lambda>r c. node_value (cell ?s0 i r c)) r c) (cell ?s0 i r c)"
      using s'(2) b by (simp add: linked_on_def)
    moreover have "adjacent_refs (pn self) (pm self) (\<lambda>r c. node_value (cell ?s0 i r c)) r c
        = adjacent_refs (pn self) (pm self) (chunk w (pm self) (bss ! i)) r c"
      using b by (auto simp: adjacent_refs_def cell0 new_Node_def)
    ultimately show ?thesis
      using b by (simp add: cell0 new_Node_def add_refs_def)
  qed
  show ?thesis
    using run s'(2) cells by (intro exI [of _ s']) (simp add: linked_on_def)
qed

lemma mem_adjacent_refs:
  assumes "r < n" "c < m"
  shows "(r', c') \<in> set (adjacent_refs n m val r c) \<longleftrightarrow>
           r' < n \<and> c' < m \<and>
           ((r' = r \<and> (c' + 1 = c \<or> c + 1 = c')) \<or> (c' = c \<and> (r' + 1 = r \<or> r + 1 = r'))) \<and>
           val r' c' = val r c"
  using assms by (auto simp: adjacent_refs_def)

lemma deref_all_valid:
  assumes "\<forall>p\<in>set ps. fst p < length g \<and> snd p < length (g ! fst p)"
  shows "deref_all g ps = Inr (map (\<lambda>p. g ! fst p ! snd p) ps)"
  using assms by (induction ps) (auto simp: deref_def)

lemma decoded_neighbors:
  assumes run: "set_population self bss = Inr s'"
  shows "\<exists>w. bitsize self = Inr w \<and>
           pm s' = pm self \<and> pn s' = pn self \<and> length (population s') = length bss \<and>
           shaped s' \<and>
           (\<forall>i<length bss. \<forall>r<pn self. \<forall>c<pm self.
              cell s' i r c =
                \<lparr>node_r = r, node_c = c, node_value = chunk w (pm self) (bss ! i) r c,
                 node_neighbors = adjacent_refs (pn self) (pm self) (chunk w (pm self) (bss ! i)) r c\<rparr>)"
proof -
  obtain w where w: "bitsize self = Inr w"
    using run by (cases "bitsize self") (simp_all add: set_population_def)
  from set_population_decoded [OF w, of bss] run w show ?thesis by auto
qed

lemma decoded_deref_all:
  assumes run: "set_population self bss = Inr s'" and b: "i < length bss" "r < pn self" "c < pm self"
  shows "deref_all (population s' ! i) (node_neighbors (cell s' i r c)) =
           Inr (map (\<lambda>p. cell s' i (fst p) (snd p)) (node_neighbors (cell s' i r c)))"
    and "\<And>r' c'. (r', c') \<in> set (node_neighbors (cell s' i r c)) \<longleftrightarrow>
           r' < pn self \<and> c' < pm self \<and>
           ((r' = r \<and> (c' + 1 = c \<or> c + 1 = c')) \<or> (c' = c \<and> (r' + 1 = r \<or> r + 1 = r'))) \<and>
           node_value (cell s' i r' c') = node_value (cell s' i r c)"
proof -
  from decoded_neighbors [OF run]
  obtain w where d: "pm s' = pm self" "pn s' = pn self" "length (population s') = length bss"
      "shaped s'"
      "\<forall>i<length bss. \<forall>r<pn self. \<forall>c<pm self.
           cell s' i r c =
                \<lparr>node_r = r, node_c = c, node_value = chunk w (pm self) (bss ! i) r c,
                 node_neighbors = adjacent_refs (pn self) (pm self) (chunk w (pm self) (bss ! i)) r c\<rparr>"
    by blast
  show mem: "(r', c') \<in> set (node_neighbors (cell s' i r c)) \<longleftrightarrow>
           r' < pn self \<and> c' < pm self \<and>
           ((r' = r \<and> (c' + 1 = c \<or> c + 1 = c')) \<or> (c' = c \<and> (r' + 1 = r \<or> r + 1 = r'))) \<and>
           node_value (cell s' i r' c') = node_value (cell s' i r c)" for r' c'
  proof (cases "r' < pn self \<and> c' < pm self")
    case True
    then show ?thesis
      using b by (simp add: d(5) mem_adjacent_refs)
  next
    case False
    then show ?thesis
      using b by (auto simp: d(5) mem_adjacent_refs)
  qed
  have "\<forall>p\<in>set (node_neighbors (cell s' i r c)).
      fst p < length (population s' ! i) \<and> snd p < length (population s' ! i ! fst p)"
  proof
    fix p assume "p \<in> set (node_neighbors (cell s' i r c))"
    then have "(fst p, snd p) \<in> set (node_neighbors (cell s' i r c))" by simp
    then have "fst p < pn self" "snd p < pm self" using mem by blast+
    then show "fst p < length (population s' ! i) \<and> snd p < length (population s' ! i ! fst p)"
      using d(1-4) b(1) by (simp add: shaped_def)
  qed
  then show "deref_all (population s' ! i) (node_neighbors (cell s' i r c)) =
           Inr (map (\<lambda>p. cell s' i (fst p) (snd p)) (node_neighbors (cell s' i r c)))"
    by (simp add: deref_all_valid cell_def)
qed

lemma decoded_node_in:
  assumes run: "set_population self bss = Inr s'" and i: "i < length bss"
    and a: "r1 < pn self" "c1 < pm self" and b: "r2 < pn self" "c2 < pm self"
  shows "node_in (cell s' i r1 c1) (map (\<lambda>p. cell s' i (fst p) (snd p)) (node_neighbors (cell s' i r2 c2)))
         \<longleftrightarrow> (r1, c1) \<in> set (node_neighbors (cell s' i r2 c2))"
proof -
  from decoded_neighbors [OF run]
  obtain w where d:
      "\<forall>i<length bss. \<forall>r<pn self. \<forall>c<pm self.
           cell s' i r c =
                \<lparr>node_r = r, node_c = c, node_value = chunk w (pm self) (bss ! i) r c,
                 node_neighbors = adjacent_refs (pn self) (pm self) (chunk w (pm self) (bss ! i)) r c\<rparr>"
    by blast
  have valid: "fst p < pn self \<and> snd p < pm self" if "p \<in> set (node_neighbors (cell s' i r2 c2))" for p
  proof -
    from that have "(fst p, snd p) \<in> set (node_neighbors (cell s' i r2 c2))" by simp
    then show ?thesis using decoded_deref_all(2) [OF run i b] by blast
  qed
  have "node_eq (cell s' i (fst p) (snd p)) (cell s' i r1 c1) \<longleftrightarrow> p = (r1, c1)"
    if "p \<in> set (node_neighbors (cell s' i r2 c2))" for p
    using valid [OF that] i a by (cases p) (auto simp: d node_eq_def)
  then show ?thesis
    by (auto simp: node_in_def list_ex_iff)
qed

subsection \<open>The scenario of the header comment, decoded\<close>

lemma scenario_bitsize: "bitsize scenario = Inr 1"
  by (simp add: bitsize_def scenario_def)

lemma scenario_links:
  "set_up_neighbors 1 (scenario\<lparr>population := [populate scenario 1 ''1111100000'']\<rparr>)
     = Inr (scenario\<lparr>population := [scenario_grid]\<rparr>)"
  by code_simp

lemma scenario_decoded:
  "set_population scenario [''1111100000''] = Inr (scenario\<lparr>population := [scenario_grid]\<rparr>)"
  using scenario_links by (simp add: set_population_def scenario_bitsize)

subsection \<open>Round trip\<close>

text \<open>
  Claim C3. Let \<open>w\<close> be the bit width of the board and let every bitstring given to
  \<open>set_population\<close> have length \<open>m*n*w\<close>. Then decoding raises nothing, every grid has
  \<open>n\<close> rows of \<open>m\<close> cells, the cell in row \<open>r\<close> and column \<open>c\<close> holds the \<open>w\<close> bits
  that start at bit \<open>(r*m + c)*w\<close> of the bitstring (its chunk in row-major order), and
  reading the values of the grid back in row-major order gives the bitstring again.
\<close>

theorem decode_round_trip:
  assumes w: "bitsize self = Inr (int w)"
    and len: "\<forall>bs\<in>set bss. length bs = pm self * pn self * w"
  shows "\<exists>s'. set_population self bss = Inr s' \<and> length (population s') = length bss \<and>
           (\<forall>i<length bss.
              length (population s' ! i) = pn self \<and>
              (\<forall>r<pn self. length (population s' ! i ! r) = pm self \<and>
                 (\<forall>c<pm self. node_value (population s' ! i ! r ! c)
                                  = take w (drop ((r * pm self + c) * w) (bss ! i)))) \<and>
              concat (map (\<lambda>lst. concat (map node_value lst)) (population s' ! i)) = bss ! i)"
proof -
  from set_population_decoded [OF w, of bss]
  obtain s' where s': "set_population self bss = Inr s'" "pm s' = pm self" "pn s' = pn self"
      "length (population s') = length bss" "shaped s'"
      "\<forall>i<length bss. \<forall>r<pn self. \<forall>c<pm self.
         cell s' i r c =
           \<lparr>node_r = r, node_c = c, node_value = chunk (int w) (pm self) (bss ! i) r c,
            node_neighbors = adjacent_refs (pn self) (pm self) (chunk (int w) (pm self) (bss ! i)) r c\<rparr>"
    by blast
  have grid: "length (population s' ! i) = pn self \<and>
              (\<forall>r<pn self. length (population s' ! i ! r) = pm self \<and>
                 (\<forall>c<pm self. node_value (population s' ! i ! r ! c)
                                  = take w (drop ((r * pm self + c) * w) (bss ! i)))) \<and>
              concat (map (\<lambda>lst. concat (map node_value lst)) (population s' ! i)) = bss ! i"
    if i: "i < length bss" for i
  proof -
    let ?g = "population s' ! i"
    let ?bs = "bss ! i"
    have rows: "length ?g = pn self"
      using s'(2-5) i by (simp add: shaped_def)
    have cols: "length (?g ! r) = pm self" if "r < pn self" for r
      using s'(2-5) i that by (simp add: shaped_def)
    have val: "node_value (?g ! r ! c) = take w (drop ((r * pm self + c) * w) ?bs)"
      if "r < pn self" "c < pm self" for r c
    proof -
      have "node_value (cell s' i r c) = chunk (int w) (pm self) ?bs r c"
        using s'(6) i that by simp
      then show ?thesis by (simp add: cell_def chunk_nat)
    qed
    have row: "concat (map node_value (?g ! r))
        = concat (map (\<lambda>c. take w (drop ((r * pm self + c) * w) ?bs)) [0..<pm self])"
      if r: "r < pn self" for r
    proof -
      have "map node_value (?g ! r) = map (\<lambda>c. node_value (?g ! r ! c)) [0..<pm self]"
        using cols [OF r] by (simp add: list_eq_iff_nth_eq)
      also have "\<dots> = map (\<lambda>c. take w (drop ((r * pm self + c) * w) ?bs)) [0..<pm self]"
        using val [OF r] by simp
      finally show ?thesis by simp
    qed
    have "map (\<lambda>lst. concat (map node_value lst)) ?g
        = map (\<lambda>r. concat (map node_value (?g ! r))) [0..<pn self]"
      using rows by (simp add: list_eq_iff_nth_eq)
    also have "\<dots> = map (\<lambda>r. concat (map (\<lambda>c. take w (drop ((r * pm self + c) * w) ?bs)) [0..<pm self]))
        [0..<pn self]"
      using row by simp
    finally have "concat (map (\<lambda>lst. concat (map node_value lst)) ?g)
        = take (pn self * (pm self * w)) ?bs"
      by (simp only: concat_grid_chunks)
    moreover have "length ?bs = pm self * pn self * w"
      using len i by simp
    ultimately have "concat (map (\<lambda>lst. concat (map node_value lst)) ?g) = ?bs"
      by (simp add: mult.assoc mult.left_commute)
    with rows cols val show ?thesis by blast
  qed
  show ?thesis
    using s'(1,4) grid by blast
qed

text \<open>
  The board with two columns and five rows and the bitstring \<open>1111100000\<close>: the cell in
  row 2 and column 1 holds bit 5, and the values of the grid spell the bitstring.
\<close>

theorem decode_round_trip_witness:
  "bitsize scenario = Inr (int 1) \<and>
   length ''1111100000'' = pm scenario * pn scenario * 1 \<and>
   set_population scenario [''1111100000''] = Inr (scenario\<lparr>population := [scenario_grid]\<rparr>) \<and>
   node_value (scenario_grid ! 2 ! 1) = take 1 (drop ((2 * pm scenario + 1) * 1) ''1111100000'') \<and>
   concat (map (\<lambda>lst. concat (map node_value lst)) scenario_grid) = ''1111100000''"
proof -
  have a: "bitsize scenario = Inr (int 1)" by (simp add: scenario_bitsize)
  have b: "\<forall>bs\<in>set [''1111100000'']. length bs = pm scenario * pn scenario * 1"
    by (simp add: scenario_def)
  from decode_round_trip [OF a b]
  have "node_value (scenario_grid ! 2 ! 1) = take 1 (drop ((2 * pm scenario + 1) * 1) ''1111100000'') \<and>
     concat (map (\<lambda>lst. concat (map node_value lst)) scenario_grid) = ''1111100000''"
    by (simp add: scenario_decoded) (simp add: scenario_def)
  with a b scenario_decoded show ?thesis by simp
qed

subsection \<open>Symmetry of the neighbor lists\<close>

text \<open>
  Claim C4. Let \<open>A\<close> and \<open>B\<close> be the cells at \<open>(r1, c1)\<close> and \<open>(r2, c2)\<close> of a grid
  that \<open>set_population\<close> decoded. Every reference in their neighbor lists points into the
  grid, \<open>A in B.neighbors\<close> holds if and only if \<open>B in A.neighbors\<close> holds, and both hold
  exactly when the two cells are next to each other in a row or in a column and carry
  the same value.
\<close>

theorem neighbors_symmetric:
  assumes run: "set_population self bss = Inr s'" and i: "i < length bss"
    and a: "r1 < pn self" "c1 < pm self" and b: "r2 < pn self" "c2 < pm self"
    and A: "A = population s' ! i ! r1 ! c1" and B: "B = population s' ! i ! r2 ! c2"
  shows "\<exists>neighborsA neighborsB.
           deref_all (population s' ! i) (node_neighbors A) = Inr neighborsA \<and>
           deref_all (population s' ! i) (node_neighbors B) = Inr neighborsB \<and>
           (node_in A neighborsB \<longleftrightarrow> node_in B neighborsA) \<and>
           (node_in A neighborsB \<longleftrightarrow>
              ((r1 = r2 \<and> (c1 + 1 = c2 \<or> c2 + 1 = c1)) \<or> (c1 = c2 \<and> (r1 + 1 = r2 \<or> r2 + 1 = r1))) \<and>
              node_value A = node_value B)"
proof -
  have A': "A = cell s' i r1 c1" and B': "B = cell s' i r2 c2"
    using A B by (simp_all add: cell_def)
  let ?nA = "map (\<lambda>p. cell s' i (fst p) (snd p)) (node_neighbors A)"
  let ?nB = "map (\<lambda>p. cell s' i (fst p) (snd p)) (node_neighbors B)"
  have dA: "deref_all (population s' ! i) (node_neighbors A) = Inr ?nA"
    unfolding A' by (rule decoded_deref_all(1) [OF run i a])
  have dB: "deref_all (population s' ! i) (node_neighbors B) = Inr ?nB"
    unfolding B' by (rule decoded_deref_all(1) [OF run i b])
  have inB: "node_in A ?nB \<longleftrightarrow>
      ((r1 = r2 \<and> (c1 + 1 = c2 \<or> c2 + 1 = c1)) \<or> (c1 = c2 \<and> (r1 + 1 = r2 \<or> r2 + 1 = r1))) \<and>
      node_value A = node_value B"
    unfolding A' B' decoded_node_in [OF run i a b] decoded_deref_all(2) [OF run i b]
    using a by auto
  have inA: "node_in B ?nA \<longleftrightarrow>
      ((r1 = r2 \<and> (c1 + 1 = c2 \<or> c2 + 1 = c1)) \<or> (c1 = c2 \<and> (r1 + 1 = r2 \<or> r2 + 1 = r1))) \<and>
      node_value A = node_value B"
    unfolding A' B' decoded_node_in [OF run i b a] decoded_deref_all(2) [OF run i a]
    using b by auto
  show ?thesis
    using dA dB inA inB by blast
qed

text \<open>
  In the grid of \<open>1111100000\<close> the cells \<open>(1, 0)\<close> and \<open>(2, 0)\<close> both hold \<open>1\<close>; each
  is in the neighbor list of the other.
\<close>

theorem neighbors_symmetric_witness:
  "set_population scenario [''1111100000''] = Inr (scenario\<lparr>population := [scenario_grid]\<rparr>) \<and>
   deref_all scenario_grid (node_neighbors (scenario_grid ! 1 ! 0))
     = Inr [scenario_grid ! 0 ! 0, scenario_grid ! 2 ! 0, scenario_grid ! 1 ! 1] \<and>
   deref_all scenario_grid (node_neighbors (scenario_grid ! 2 ! 0)) = Inr [scenario_grid ! 1 ! 0] \<and>
   node_in (scenario_grid ! 1 ! 0) [scenario_grid ! 1 ! 0] \<and>
   node_in (scenario_grid ! 2 ! 0) [scenario_grid ! 0 ! 0, scenario_grid ! 2 ! 0, scenario_grid ! 1 ! 1]"
proof -
  have i: "(0::nat) < length [''1111100000'']" by simp
  have a: "(1::nat) < pn scenario" "(0::nat) < pm scenario" by (simp_all add: scenario_def)
  have b: "(2::nat) < pn scenario" "(0::nat) < pm scenario" by (simp_all add: scenario_def)
  have A: "scenario_grid ! 1 ! 0 = population (scenario\<lparr>population := [scenario_grid]\<rparr>) ! 0 ! 1 ! 0"
    by simp
  have B: "scenario_grid ! 2 ! 0 = population (scenario\<lparr>population := [scenario_grid]\<rparr>) ! 0 ! 2 ! 0"
    by simp
  have dA: "deref_all scenario_grid (node_neighbors (scenario_grid ! 1 ! 0))
     = Inr [scenario_grid ! 0 ! 0, scenario_grid ! 2 ! 0, scenario_grid ! 1 ! 1]"
    by code_simp
  have dB: "deref_all scenario_grid (node_neighbors (scenario_grid ! 2 ! 0)) = Inr [scenario_grid ! 1 ! 0]"
    by code_simp
  from neighbors_symmetric [OF scenario_decoded i a b A B]
  obtain neighborsA neighborsB where r:
      "deref_all scenario_grid (node_neighbors (scenario_grid ! 1 ! 0)) = Inr neighborsA"
      "deref_all scenario_grid (node_neighbors (scenario_grid ! 2 ! 0)) = Inr neighborsB"
      "node_in (scenario_grid ! 1 ! 0) neighborsB \<longleftrightarrow> node_in (scenario_grid ! 2 ! 0) neighborsA"
      "node_in (scenario_grid ! 1 ! 0) neighborsB \<longleftrightarrow>
         node_value (scenario_grid ! 1 ! 0) = node_value (scenario_grid ! 2 ! 0)"
    by auto
  have nA: "neighborsA = [scenario_grid ! 0 ! 0, scenario_grid ! 2 ! 0, scenario_grid ! 1 ! 1]"
    using r(1) dA by simp
  have nB: "neighborsB = [scenario_grid ! 1 ! 0]"
    using r(2) dB by simp
  have "node_value (scenario_grid ! 1 ! 0) = node_value (scenario_grid ! 2 ! 0)"
    by code_simp
  with r(3,4) have "node_in (scenario_grid ! 1 ! 0) neighborsB" "node_in (scenario_grid ! 2 ! 0) neighborsA"
    by simp_all
  with scenario_decoded dA dB nA nB show ?thesis by simp
qed

section \<open>Breadth-first search and fitness\<close>

lemma wf_grid_at:
  assumes "wf_grid n m g" "fst p < n" "snd p < m"
  shows "node_r (node_at g p) = fst p" "node_c (node_at g p) = snd p"
    and "\<And>q. q \<in> set (node_neighbors (node_at g p)) \<Longrightarrow> fst q < n \<and> snd q < m"
    and "fst p < length g" "snd p < length (g ! fst p)"
  using assms by (simp_all add: wf_grid_def node_at_def)

lemma reach_valid:
  assumes wf: "wf_grid n m g" and p0: "fst p0 < n" "snd p0 < m"
    and r: "(p0, p) \<in> (linked g)\<^sup>*"
  shows "fst p < n \<and> snd p < m"
  using r
proof (induction rule: rtrancl_induct)
  case base
  then show ?case using p0 by simp
next
  case (step y z)
  then have "z \<in> set (node_neighbors (node_at g y))" by (simp add: linked_def)
  then show ?case using wf_grid_at(3) [OF wf] step.IH by blast
qed

lemma wf_grid_node_eq:
  assumes wf: "wf_grid n m g" and p: "fst p < n" "snd p < m" and q: "fst q < n" "snd q < m"
    and eq: "node_eq (node_at g p) (node_at g q)"
  shows "p = q"
proof -
  have "fst p = fst q" "snd p = snd q"
    using eq wf_grid_at(1,2) [OF wf p] wf_grid_at(1,2) [OF wf q] by (simp_all add: node_eq_def)
  then show ?thesis by (simp add: prod_eq_iff)
qed

lemma fresh_set:
  assumes "\<forall>a\<in>set ns \<union> set visited. \<forall>b\<in>set ns \<union> set visited. node_eq a b \<longrightarrow> a = b"
  shows "set (fresh ns visited) = set ns - set visited \<and> distinct (fresh ns visited)"
  using assms
proof (induction ns arbitrary: visited)
  case Nil
  then show ?case by simp
next
  case (Cons x ns)
  have mem: "node_in x visited \<longleftrightarrow> x \<in> set visited"
  proof
    assume "node_in x visited"
    then obtain y where "y \<in> set visited" "node_eq y x"
      by (auto simp: node_in_def list_ex_iff)
    then show "x \<in> set visited" using Cons.prems by auto
  next
    assume "x \<in> set visited"
    then show "node_in x visited"
      by (auto simp: node_in_def list_ex_iff node_eq_def)
  qed
  show ?case
  proof (cases "x \<in> set visited")
    case True
    have "\<forall>a\<in>set ns \<union> set visited. \<forall>b\<in>set ns \<union> set visited. node_eq a b \<longrightarrow> a = b"
      using Cons.prems by simp
    from Cons.IH [OF this] True mem show ?thesis by auto
  next
    case False
    have "\<forall>a\<in>set ns \<union> set (visited @ [x]). \<forall>b\<in>set ns \<union> set (visited @ [x]). node_eq a b \<longrightarrow> a = b"
      using Cons.prems by simp
    from Cons.IH [OF this] False mem show ?thesis by auto
  qed
qed

lemma bfs_step:
  assumes wf: "wf_grid n m g" and p0: "fst p0 < n" "snd p0 < m"
    and inv: "bfs_inv g p0 (visited, s # q', count)"
  shows "deref_all g (node_neighbors s) = Inr (map (node_at g) (node_neighbors s))"
    and "bfs_inv g p0 (bfs_for (map (node_at g) (node_neighbors s)) (visited, q', count))"
proof -
  let ?R = "{p. (p0, p) \<in> (linked g)\<^sup>*}"
  let ?ns = "map (node_at g) (node_neighbors s)"
  let ?new = "fresh ?ns visited"
  from inv have d: "distinct visited" and c: "count = length visited"
    and q: "set (s # q') \<subseteq> set visited" and sub: "set visited \<subseteq> node_at g ` ?R"
    and st: "node_at g p0 \<in> set visited"
    and cl: "\<forall>v\<in>set visited. v \<notin> set (s # q') \<longrightarrow> (\<forall>p\<in>set (node_neighbors v). node_at g p \<in> set visited)"
    by (simp_all add: bfs_inv_def)
  from q sub obtain ps where ps: "(p0, ps) \<in> (linked g)\<^sup>*" "s = node_at g ps" by auto
  have psv: "fst ps < n" "snd ps < m"
    using reach_valid [OF wf p0 ps(1)] by simp_all
  have nbv: "fst p < n \<and> snd p < m" if "p \<in> set (node_neighbors s)" for p
    using wf_grid_at(3) [OF wf psv] that ps(2) by simp
  have nbr: "(p0, p) \<in> (linked g)\<^sup>*" if "p \<in> set (node_neighbors s)" for p
  proof -
    have "(ps, p) \<in> linked g"
      using that ps(2) wf_grid_at(4,5) [OF wf psv] by (simp add: linked_def)
    with ps(1) show ?thesis by (rule rtrancl_into_rtrancl)
  qed
  have "\<forall>p\<in>set (node_neighbors s). fst p < length g \<and> snd p < length (g ! fst p)"
  proof
    fix p assume "p \<in> set (node_neighbors s)"
    from nbv [OF this] show "fst p < length g \<and> snd p < length (g ! fst p)"
      using wf by (simp add: wf_grid_def)
  qed
  then have "deref_all g (node_neighbors s) = Inr (map (\<lambda>p. g ! fst p ! snd p) (node_neighbors s))"
    by (rule deref_all_valid)
  then show "deref_all g (node_neighbors s) = Inr ?ns"
    by (simp add: node_at_def [abs_def])
  have ns_sub: "set ?ns \<subseteq> node_at g ` ?R"
    using nbr by auto
  have eq: "\<forall>a\<in>set ?ns \<union> set visited. \<forall>b\<in>set ?ns \<union> set visited. node_eq a b \<longrightarrow> a = b"
  proof (intro ballI impI)
    fix a b assume a: "a \<in> set ?ns \<union> set visited" and b: "b \<in> set ?ns \<union> set visited"
      and e: "node_eq a b"
    from a ns_sub sub obtain pa where pa: "(p0, pa) \<in> (linked g)\<^sup>*" "a = node_at g pa" by auto
    from b ns_sub sub obtain pb where pb: "(p0, pb) \<in> (linked g)\<^sup>*" "b = node_at g pb" by auto
    have "pa = pb"
      using wf_grid_node_eq [OF wf] reach_valid [OF wf p0 pa(1)] reach_valid [OF wf p0 pb(1)] e pa(2) pb(2)
      by blast
    then show "a = b" using pa(2) pb(2) by simp
  qed
  from fresh_set [OF eq] have new: "set ?new = set ?ns - set visited" "distinct ?new" by simp_all
  have "bfs_inv g p0 (visited @ ?new, q' @ ?new, count + length ?new)"
    unfolding bfs_inv_def
  proof (simp only: prod.case, intro conjI ballI impI)
    show "distinct (visited @ ?new)" using d new by auto
    show "count + length ?new = length (visited @ ?new)" using c by simp
    show "set (q' @ ?new) \<subseteq> set (visited @ ?new)" using q by auto
    show "set (visited @ ?new) \<subseteq> node_at g ` ?R" using sub ns_sub new(1) by auto
    show "node_at g p0 \<in> set (visited @ ?new)" using st by simp
  next
    fix v p assume v: "v \<in> set (visited @ ?new)" "v \<notin> set (q' @ ?new)"
      and p: "p \<in> set (node_neighbors v)"
    from v have vv: "v \<in> set visited" "v \<notin> set q'" by auto
    show "node_at g p \<in> set (visited @ ?new)"
    proof (cases "v = s")
      case True
      then have "node_at g p \<in> set ?ns" using p by simp
      then show ?thesis using new(1) by auto
    next
      case False
      then have "v \<notin> set (s # q')" using vv(2) by simp
      then show ?thesis using cl vv(1) p by auto
    qed
  qed
  then show "bfs_inv g p0 (bfs_for ?ns (visited, q', count))"
    by (simp only: bfs_for_fresh)
qed

lemma bfs_while_correct:
  assumes "wf_grid n m g" "fst p0 < n" "snd p0 < m" "bfs_inv g p0 st"
  shows "\<exists>visited count. bfs_while g st = Inr (visited, count) \<and> distinct visited \<and>
           count = length visited \<and> set visited = node_at g ` {p. (p0, p) \<in> (linked g)\<^sup>*}"
  using assms
proof (induction g st rule: bfs_while.induct)
  case (1 g visited q count)
  note wf = "1.prems"(1) and p0 = "1.prems"(2,3) and inv = "1.prems"(4)
  show ?case
  proof (cases q)
    case Nil
    from inv Nil have d: "distinct visited" and c: "count = length visited"
      and sub: "set visited \<subseteq> node_at g ` {p. (p0, p) \<in> (linked g)\<^sup>*}"
      and st: "node_at g p0 \<in> set visited"
      and cl: "\<forall>v\<in>set visited. \<forall>p\<in>set (node_neighbors v). node_at g p \<in> set visited"
      by (simp_all add: bfs_inv_def)
    have "node_at g p \<in> set visited" if "(p0, p) \<in> (linked g)\<^sup>*" for p
      using that
    proof (induction rule: rtrancl_induct)
      case base
      then show ?case by (rule st)
    next
      case (step y z)
      then have "z \<in> set (node_neighbors (node_at g y))" by (simp add: linked_def)
      with cl step.IH show ?case by blast
    qed
    with sub have "set visited = node_at g ` {p. (p0, p) \<in> (linked g)\<^sup>*}" by auto
    moreover have "bfs_while g (visited, q, count) = Inr (visited, count)"
      using Nil by (simp add: bfs_while.simps)
    ultimately show ?thesis using d c by simp
  next
    case (Cons s q')
    let ?ns = "map (node_at g) (node_neighbors s)"
    have inv': "bfs_inv g p0 (visited, s # q', count)" using inv Cons by simp
    note step = bfs_step [OF wf p0 inv']
    have "bfs_while g (visited, q, count) = bfs_while g (bfs_for ?ns (visited, q', count))"
      using Cons step(1) by (simp add: bfs_while.simps)
    with "1.IH" [OF Cons step(1) wf p0 step(2)] show ?thesis by simp
  qed
qed

lemma bfs_correct:
  assumes wf: "wf_grid n m g" and p0: "fst p0 < n" "snd p0 < m"
  shows "\<exists>visited count.
           bfs_while g ([node_at g p0], [node_at g p0], 1) = Inr (visited, count) \<and>
           bfs g (node_at g p0) = Inr count \<and> distinct visited \<and> count = length visited \<and>
           set visited = node_at g ` {p. (p0, p) \<in> (linked g)\<^sup>*} \<and>
           count = card {p. (p0, p) \<in> (linked g)\<^sup>*} \<and> 1 \<le> count \<and> count \<le> m * n"
proof -
  let ?R = "{p. (p0, p) \<in> (linked g)\<^sup>*}"
  have "bfs_inv g p0 ([node_at g p0], [node_at g p0], 1)"
    by (auto simp: bfs_inv_def)
  from bfs_while_correct [OF wf p0 this]
  obtain visited count where r: "bfs_while g ([node_at g p0], [node_at g p0], 1) = Inr (visited, count)"
      "distinct visited" "count = length visited" "set visited = node_at g ` ?R"
    by blast
  have valid: "?R \<subseteq> {..<n} \<times> {..<m}"
    using reach_valid [OF wf p0] by auto
  then have fin: "finite ?R" by (rule finite_subset) simp
  have inj: "inj_on (node_at g) ?R"
  proof (rule inj_onI)
    fix a b assume "a \<in> ?R" "b \<in> ?R" "node_at g a = node_at g b"
    then show "a = b"
      using wf_grid_node_eq [OF wf, of a b] reach_valid [OF wf p0, of a] reach_valid [OF wf p0, of b]
      by (simp add: node_eq_def)
  qed
  have "count = card (set visited)" using r(2,3) by (simp add: distinct_card)
  also have "\<dots> = card ?R" using r(4) inj by (simp add: card_image)
  finally have card: "count = card ?R" .
  have "p0 \<in> ?R" by simp
  then have "?R \<noteq> {}" by blast
  then have "0 < card ?R" using fin by (simp add: card_gt_0_iff)
  then have lo: "1 \<le> count" using card by simp
  have "card ?R \<le> card ({..<n} \<times> {..<m})"
    using valid by (intro card_mono) simp_all
  then have hi: "count \<le> m * n" using card by (simp add: mult.commute)
  have "bfs g (node_at g p0) = Inr count"
    using r(1) by (simp add: bfs_def)
  with r card lo hi show ?thesis by blast
qed

lemma decoded_wf_grid:
  assumes run: "set_population self bss = Inr s'" and i: "i < length bss"
  shows "wf_grid (pn self) (pm self) (population s' ! i)"
proof -
  from decoded_neighbors [OF run]
  obtain w where d: "pm s' = pm self" "pn s' = pn self" "length (population s') = length bss"
      "shaped s'"
      "\<forall>i<length bss. \<forall>r<pn self. \<forall>c<pm self.
           cell s' i r c =
                \<lparr>node_r = r, node_c = c, node_value = chunk w (pm self) (bss ! i) r c,
                 node_neighbors = adjacent_refs (pn self) (pm self) (chunk w (pm self) (bss ! i)) r c\<rparr>"
    by blast
  let ?g = "population s' ! i"
  have rows: "length ?g = pn self" using d(1-4) i by (simp add: shaped_def)
  have cols: "length (?g ! r) = pm self" if "r < pn self" for r
    using d(1-4) i that by (simp add: shaped_def)
  have node: "node_r (?g ! r ! c) = r \<and> node_c (?g ! r ! c) = c \<and>
      (\<forall>p\<in>set (node_neighbors (?g ! r ! c)). fst p < pn self \<and> snd p < pm self)"
    if b: "r < pn self" "c < pm self" for r c
  proof -
    have c: "?g ! r ! c = \<lparr>node_r = r, node_c = c, node_value = chunk w (pm self) (bss ! i) r c,
                 node_neighbors = adjacent_refs (pn self) (pm self) (chunk w (pm self) (bss ! i)) r c\<rparr>"
      using d(5) i b by (simp add: cell_def)
    have "fst p < pn self \<and> snd p < pm self"
      if "p \<in> set (adjacent_refs (pn self) (pm self) (chunk w (pm self) (bss ! i)) r c)" for p
      using that mem_adjacent_refs [OF b, of "fst p" "snd p"] by simp
    then show ?thesis by (simp add: c)
  qed
  show ?thesis
    unfolding wf_grid_def using rows cols node by blast
qed

subsection \<open>Component size\<close>

text \<open>
  Claim C5. Let \<open>g\<close> be a grid that \<open>set_population\<close> decoded for a board with \<open>m\<close>
  columns and \<open>n\<close> rows, and start \<open>bfs\<close> at the cell \<open>(r, c)\<close> of \<open>g\<close>. Then \<open>bfs\<close>
  ends and raises nothing; the size \<open>count\<close> it returns is at least \<open>1\<close> and at most
  \<open>m*n\<close>; it is the number of positions that can be reached from \<open>(r, c)\<close> by following
  neighbor lists, the start included; and \<open>visited\<close> ends as a list without repetition of
  exactly the cells at these positions, \<open>count\<close> being its length.
\<close>

theorem bfs_component_size:
  assumes run: "set_population self bss = Inr s'" and i: "i < length bss"
    and r: "r < pn self" and c: "c < pm self"
    and g: "g = population s' ! i"
  shows "\<exists>visited count.
           bfs_while g ([g ! r ! c], [g ! r ! c], 1) = Inr (visited, count) \<and>
           bfs g (g ! r ! c) = Inr count \<and>
           1 \<le> count \<and> count \<le> pm self * pn self \<and>
           count = card {p. ((r, c), p) \<in> (linked g)\<^sup>*} \<and>
           distinct visited \<and> count = length visited \<and>
           set visited = node_at g ` {p. ((r, c), p) \<in> (linked g)\<^sup>*}"
proof -
  have wf: "wf_grid (pn self) (pm self) g"
    unfolding g using run i by (rule decoded_wf_grid)
  have p0: "fst (r, c) < pn self" "snd (r, c) < pm self" using r c by simp_all
  have at: "node_at g (r, c) = g ! r ! c" by (simp add: node_at_def)
  from bfs_correct [OF wf p0] show ?thesis
    unfolding at by blast
qed

lemma scenario_bfs: "bfs scenario_grid (scenario_grid ! 0 ! 0) = Inr 5"
  by code_simp

text \<open>
  In the grid of \<open>1111100000\<close> the search from the cell \<open>(0, 0)\<close> returns \<open>5\<close>, and
  five positions can be reached from \<open>(0, 0)\<close>.
\<close>

theorem bfs_component_size_witness:
  "set_population scenario [''1111100000''] = Inr (scenario\<lparr>population := [scenario_grid]\<rparr>) \<and>
   (0::nat) < length [''1111100000''] \<and> (0::nat) < pn scenario \<and> (0::nat) < pm scenario \<and>
   bfs scenario_grid (scenario_grid ! 0 ! 0) = Inr 5 \<and>
   card {p. ((0, 0), p) \<in> (linked scenario_grid)\<^sup>*} = 5 \<and>
   5 \<le> pm scenario * pn scenario"
proof -
  have i: "(0::nat) < length [''1111100000'']" by simp
  have r: "(0::nat) < pn scenario" and c: "(0::nat) < pm scenario"
    by (simp_all add: scenario_def)
  have g: "scenario_grid = population (scenario\<lparr>population := [scenario_grid]\<rparr>) ! 0"
    by simp
  from bfs_component_size [OF scenario_decoded i r c g]
  obtain count where k: "bfs scenario_grid (scenario_grid ! 0 ! 0) = Inr count"
      "count \<le> pm scenario * pn scenario"
      "count = card {p. ((0, 0), p) \<in> (linked scenario_grid)\<^sup>*}"
    by blast
  from k(1) scenario_bfs have "count = 5" by simp
  with k scenario_decoded i r c show ?thesis by simp
qed



subsection \<open>The scenario of the header comment\<close>



section \<open>Rendering\<close>

lemma chunk_count:
  fixes j w L :: nat
  assumes "0 < w"
  shows "j * w < L \<longleftrightarrow> j < (L + w - 1) div w"
proof -
  have "j < (L + w - 1) div w \<longleftrightarrow> Suc j \<le> (L + w - 1) div w" by auto
  also have "\<dots> \<longleftrightarrow> Suc j * w \<le> L + w - 1"
    using assms by (simp add: less_eq_div_iff_mult_less_eq)
  also have "\<dots> \<longleftrightarrow> j * w < L"
    using assms by (simp, arith)
  finally show ?thesis by simp
qed

lemma collect_pents_fold:
  assumes w: "0 < w"
  shows "j \<le> (length bs + w - 1) div w \<Longrightarrow>
     collect_pents bs w (j * w) pents =
       Some (fold add_pent (map (pent_chunk bs w) [j..<(length bs + w - 1) div w]) pents)"
proof (induction "(length bs + w - 1) div w - j" arbitrary: j pents)
  case 0
  then have "\<not> j * w < length bs" using chunk_count [OF w, of j "length bs"] by simp
  then have "collect_pents bs w (j * w) pents = Some pents"
    by (subst collect_pents.simps) simp
  with 0 show ?case by simp
next
  case (Suc d)
  then have lt: "j < (length bs + w - 1) div w" by simp
  then have k: "j * w < length bs" using chunk_count [OF w, of j "length bs"] by simp
  have d: "d = (length bs + w - 1) div w - Suc j" using Suc.hyps(2) by simp
  have "collect_pents bs w (j * w) pents
      = collect_pents bs w (Suc j * w) (add_pent (pent_chunk bs w j) pents)"
    using k by (subst collect_pents.simps) (simp add: add_pent_def pent_chunk_def add.commute)
  also have "\<dots> = Some (fold add_pent (map (pent_chunk bs w) [Suc j..<(length bs + w - 1) div w])
      (add_pent (pent_chunk bs w j) pents))"
    using Suc.hyps(1) [OF d] lt by simp
  finally show ?case using lt by (simp add: upt_conv_Cons)
qed

lemma fold_add_pent:
  "distinct pents \<Longrightarrow>
     distinct (fold add_pent xs pents) \<and> set (fold add_pent xs pents) = set pents \<union> set xs"
  by (induction xs arbitrary: pents) (auto simp: add_pent_def)

lemma list_index_mem:
  "x \<in> set xs \<Longrightarrow> \<exists>i<length xs. list_index xs x = Inr i \<and> xs ! i = x"
proof (induction xs)
  case Nil
  then show ?case by simp
next
  case (Cons y ys)
  show ?case
  proof (cases "y = x")
    case True
    then show ?thesis by auto
  next
    case False
    with Cons obtain i where "i < length ys" "list_index ys x = Inr i" "ys ! i = x" by auto
    then show ?thesis using False by (intro exI [of _ "Suc i"]) simp
  qed
qed

lemma list_index_nth:
  "distinct xs \<Longrightarrow> i < length xs \<Longrightarrow> list_index xs (xs ! i) = Inr i"
proof (induction xs arbitrary: i)
  case Nil
  then show ?case by simp
next
  case (Cons y ys)
  show ?case
  proof (cases i)
    case 0
    then show ?thesis by simp
  next
    case (Suc k)
    then have "ys ! k \<in> set ys" using Cons.prems by simp
    then have "y \<noteq> ys ! k" using Cons.prems by auto
    then show ?thesis using Suc Cons by simp
  qed
qed

lemma reps_lookup:
  "py_index reps (int i) = (if i < 8 then Inr (reps ! i) else Inl IndexError)"
  by (simp add: py_index_def reps_def)

lemma print_cells_result:
  assumes w: "0 < w" and m: "0 < m"
    and known: "\<forall>j<(length bs + w - 1) div w. pent_chunk bs w j \<in> set pents"
  shows "j \<le> (length bs + w - 1) div w \<Longrightarrow>
     ((\<forall>j'. j \<le> j' \<and> j' < (length bs + w - 1) div w \<longrightarrow>
          (\<exists>i<8. list_index pents (pent_chunk bs w j') = Inr i)) \<longrightarrow>
        (\<exists>out'. print_cells bs w m pents (j * w) out = Some (Inr out'))) \<and>
     ((\<exists>j'. j \<le> j' \<and> j' < (length bs + w - 1) div w \<and>
          (\<exists>i\<ge>8. list_index pents (pent_chunk bs w j') = Inr i)) \<longrightarrow>
        print_cells bs w m pents (j * w) out = Some (Inl IndexError))"
proof (induction "(length bs + w - 1) div w - j" arbitrary: j out)
  case 0
  then have "\<not> j * w < length bs" using chunk_count [OF w, of j "length bs"] by simp
  then have "print_cells bs w m pents (j * w) out = Some (Inr out)"
    by (subst print_cells.simps) simp
  with 0 show ?case by auto
next
  case (Suc d)
  let ?N = "(length bs + w - 1) div w"
  from Suc have lt: "j < ?N" by simp
  then have k: "j * w < length bs" using chunk_count [OF w, of j "length bs"] by simp
  have d: "d = ?N - Suc j" using Suc.hyps(2) by simp
  from known lt obtain i where i: "list_index pents (pent_chunk bs w j) = Inr i"
    using list_index_mem [of "pent_chunk bs w j" pents] by blast
  have slice: "py_slice bs (int (j * w)) (int (j * w) + int w) = pent_chunk bs w j"
    by (simp add: pent_chunk_def)
  have w0: "(w = 0) = False" "(m = 0) = False" using w m by simp_all
  have next_k: "Suc j * w = j * w + w" by simp
  show ?case
  proof (cases "i < 8")
    case False
    have "print_cells bs w m pents (j * w) out = Some (Inl IndexError)"
      by (subst print_cells.simps)
        (simp only: k if_True slice i sum.case reps_lookup False if_False)
    moreover have "\<not> (\<forall>j'. j \<le> j' \<and> j' < ?N \<longrightarrow> (\<exists>i<8. list_index pents (pent_chunk bs w j') = Inr i))"
      using lt i False by auto
    ultimately show ?thesis by simp
  next
    case True
    let ?out = "out @ [reps ! i, CHR '' ''] @
        (if ((j * w + w) div w) mod m = 0 \<and> \<not> j * w + w = 0 then [CHR 0x0A] else [])"
    have step: "print_cells bs w m pents (j * w) out = print_cells bs w m pents (Suc j * w) ?out"
      unfolding next_k
      by (subst print_cells.simps)
        (simp only: k if_True slice i sum.case reps_lookup True w0 if_False)
    have ih: "((\<forall>j'. Suc j \<le> j' \<and> j' < ?N \<longrightarrow>
          (\<exists>i<8. list_index pents (pent_chunk bs w j') = Inr i)) \<longrightarrow>
        (\<exists>out'. print_cells bs w m pents (Suc j * w) ?out = Some (Inr out'))) \<and>
     ((\<exists>j'. Suc j \<le> j' \<and> j' < ?N \<and>
          (\<exists>i\<ge>8. list_index pents (pent_chunk bs w j') = Inr i)) \<longrightarrow>
        print_cells bs w m pents (Suc j * w) ?out = Some (Inl IndexError))"
      using Suc.hyps(1) [OF d, of ?out] lt by simp
    have bad: "Suc j \<le> j'" if "j \<le> j'" "8 \<le> i'" "list_index pents (pent_chunk bs w j') = Inr i'" for j' i'
    proof -
      have "j' \<noteq> j" using that(2,3) i True by auto
      with that(1) show ?thesis by simp
    qed
    show ?thesis
      unfolding step using ih bad by (meson Suc_leD)
  qed
qed

subsection \<open>The glyph alphabet\<close>

text \<open>
  Claim C9, as amended. The claim says that \<open>print_pentomino\<close> stays inside the eight
  glyphs of \<open>reps\<close> for a bitstring with more than eight distinct chunk values. It has
  no such provision. For a bitstring of at least \<open>m*n\<close> bits (so that the chunk width is
  positive): when the chunks take at most eight distinct values, every lookup
  \<open>self.reps[pents.index(idx)]\<close> is in bounds and the board is printed; when they take
  more than eight, \<open>print_pentomino\<close> raises \<open>IndexError\<close>.
\<close>

theorem print_pentomino_alphabet:
  assumes mn: "0 < m * n" and len: "m * n \<le> length bitstring"
  shows "(card (set (pent_chunks bitstring (length bitstring div (m * n)))) \<le> 8 \<longrightarrow>
            (\<exists>out. print_pentomino bitstring m n = Some (Inr out))) \<and>
         (8 < card (set (pent_chunks bitstring (length bitstring div (m * n)))) \<longrightarrow>
            print_pentomino bitstring m n = Some (Inl IndexError))"
proof -
  let ?w = "length bitstring div (m * n)"
  let ?N = "(length bitstring + ?w - 1) div ?w"
  let ?chunks = "pent_chunks bitstring ?w"
  let ?pents = "fold add_pent ?chunks []"
  have w: "0 < ?w" using mn len by (simp add: div_greater_zero_iff)
  have m: "0 < m" using mn by simp
  have collect: "collect_pents bitstring ?w 0 [] = Some ?pents"
    using collect_pents_fold [OF w, of 0 bitstring "[]"] by (simp add: pent_chunks_def)
  have pents: "distinct ?pents" "set ?pents = set ?chunks"
    using fold_add_pent [of "[]" ?chunks] by simp_all
  then have card: "card (set ?chunks) = length ?pents"
    by (metis distinct_card)
  have "\<forall>j<?N. pent_chunk bitstring ?w j \<in> set ?chunks"
    by (simp add: pent_chunks_def)
  then have known: "\<forall>j<?N. pent_chunk bitstring ?w j \<in> set ?pents"
    by (simp only: pents(2))
  have run: "print_pentomino bitstring m n = print_cells bitstring ?w m ?pents 0 []"
    using mn collect by (simp add: print_pentomino_def)
  note cells = print_cells_result [OF w m known, of 0 "[]", simplified]
  have small: "\<exists>out. print_pentomino bitstring m n = Some (Inr out)" if "length ?pents \<le> 8"
  proof -
    have "\<exists>i<8. list_index ?pents (pent_chunk bitstring ?w j) = Inr i" if "j < ?N" for j
    proof -
      from known that obtain i where "i < length ?pents"
          "list_index ?pents (pent_chunk bitstring ?w j) = Inr i"
        using list_index_mem [of "pent_chunk bitstring ?w j" ?pents] by blast
      with \<open>length ?pents \<le> 8\<close> show ?thesis by (intro exI [of _ i]) simp
    qed
    with cells run show ?thesis by simp
  qed
  have large: "print_pentomino bitstring m n = Some (Inl IndexError)" if "8 < length ?pents"
  proof -
    from that have "?pents ! 8 \<in> set ?chunks" using pents(2) nth_mem by blast
    then obtain j where j: "j < ?N" "pent_chunk bitstring ?w j = ?pents ! 8"
      by (auto simp: pent_chunks_def)
    have "list_index ?pents (pent_chunk bitstring ?w j) = Inr 8"
      using list_index_nth [OF pents(1) that] j(2) by simp
    with j(1) have "\<exists>j'<?N. \<exists>i\<ge>8. list_index ?pents (pent_chunk bitstring ?w j') = Inr i"
      by blast
    with cells run show ?thesis by simp
  qed
  show ?thesis using small large card by simp
qed

text \<open>
  Claim C9 as stated fails. A candidate of the board with nine columns and five rows has
  chunks of four bits; \<open>nine_pieces\<close> is such a candidate of \<open>9 * 5 * 4\<close> bits, whose
  chunks take nine distinct values. Printing it raises \<open>IndexError\<close>: the ninth value
  has position \<open>8\<close> in \<open>pents\<close>, and \<open>reps\<close> has the positions \<open>0\<close> to \<open>7\<close>.
\<close>

theorem print_pentomino_alphabet_counterexample:
  "length nine_pieces = 9 * 5 * 4 \<and>
   card (set (pent_chunks nine_pieces (length nine_pieces div (9 * 5)))) = 9 \<and>
   print_pentomino nine_pieces 9 5 = Some (Inl IndexError)"
  by code_simp

lemma small_print:
  "print_pentomino ''1111100000'' 2 5 =
     Some (Inr (''~ ~ '' @ [CHR 0x0A] @ ''~ ~ '' @ [CHR 0x0A] @ ''~ * '' @ [CHR 0x0A] @
                ''* * '' @ [CHR 0x0A] @ ''* * '' @ [CHR 0x0A]))"
  by code_simp

text \<open>
  The candidate \<open>1111100000\<close> of the board with two columns and five rows has two
  distinct chunk values and is printed; \<open>nine_pieces\<close> has nine and is not.
\<close>

theorem print_pentomino_alphabet_witness:
  "(0::nat) < 2 * 5 \<and> 2 * 5 \<le> length ''1111100000'' \<and>
   card (set (pent_chunks ''1111100000'' (length ''1111100000'' div (2 * 5)))) \<le> 8 \<and>
   (\<exists>out. print_pentomino ''1111100000'' 2 5 = Some (Inr out)) \<and>
   (0::nat) < 9 * 5 \<and> 9 * 5 \<le> length nine_pieces \<and>
   8 < card (set (pent_chunks nine_pieces (length nine_pieces div (9 * 5)))) \<and>
   print_pentomino nine_pieces 9 5 = Some (Inl IndexError)"
proof -
  have a: "(0::nat) < 2 * 5" "2 * 5 \<le> length ''1111100000''" by simp_all
  have b: "card (set (pent_chunks ''1111100000'' (length ''1111100000'' div (2 * 5)))) \<le> 8"
    by code_simp
  have c: "(0::nat) < 9 * 5" by simp
  have d: "9 * 5 \<le> length nine_pieces" by code_simp
  have e: "8 < card (set (pent_chunks nine_pieces (length nine_pieces div (9 * 5))))"
    by code_simp
  from print_pentomino_alphabet [OF a] b
  have "\<exists>out. print_pentomino ''1111100000'' 2 5 = Some (Inr out)" by blast
  moreover from print_pentomino_alphabet [OF c d] e
  have "print_pentomino nine_pieces 9 5 = Some (Inl IndexError)" by blast
  ultimately show ?thesis using a b c d e by blast
qed

end
